theory Spec2Isabelle
  imports Complex_Main "HOL-Library.Multiset" "HOL-Library.Sublist"
begin

section \<open>JavaScript values\<close>

text \<open>
  The user records are what \<^verbatim>\<open>response.json()\<close> returns: JSON values. Strings are
  sequences of code units; the embedding holds the code units below 256 (the Latin-1
  range) in the 8-bit type \<^typ>\<open>char\<close>. Numbers are the values a double can take:
  every finite double is a rational, and comparing two doubles is exact, so a finite
  number is a \<^typ>\<open>rat\<close> (the sign of a zero is not kept). An object is the list of
  its own properties, every key once.
\<close>

datatype jsnum = NaN | NegInf | Fin rat | PosInf

datatype json =
    JNull
  | JBool bool
  | JNum jsnum
  | JStr string
  | JArr "json list"
  | JObj "(string \<times> json) list"

text \<open>
  The values the code of the listing screen meets: a JSON value, \<^verbatim>\<open>undefined\<close>, and
  the function objects of the standard library, which a property read finds on the
  prototype chain (\<^verbatim>\<open>({}).constructor\<close> is the function \<^verbatim>\<open>Object\<close>). A function
  is known by its name.
\<close>

datatype jsval = Undefined | Function string | Json json

datatype error = TypeError

text \<open>ToBoolean: what \<^verbatim>\<open>&&\<close> and \<^verbatim>\<open>if\<close> test.\<close>

fun truthy :: "jsval \<Rightarrow> bool" where
  "truthy Undefined = False"
| "truthy (Function f) = True"
| "truthy (Json JNull) = False"
| "truthy (Json (JBool b)) = b"
| "truthy (Json (JNum n)) = (n \<noteq> NaN \<and> n \<noteq> Fin 0)"
| "truthy (Json (JStr s)) = (s \<noteq> [])"
| "truthy (Json (JArr vs)) = True"
| "truthy (Json (JObj ps)) = True"

fun typeof :: "jsval \<Rightarrow> string" where
  "typeof Undefined = ''undefined''"
| "typeof (Function f) = ''function''"
| "typeof (Json JNull) = ''object''"
| "typeof (Json (JBool b)) = ''boolean''"
| "typeof (Json (JNum n)) = ''number''"
| "typeof (Json (JStr s)) = ''string''"
| "typeof (Json (JArr vs)) = ''object''"
| "typeof (Json (JObj ps)) = ''object''"

subsection \<open>The standard library\<close>

text \<open>
  The built-in objects of the runtime are a parameter of the embedding.
  \<^item> \<open>StringToNumber\<close> is the conversion of a string to a number, which rounds in floating
    point.
  \<^item> \<open>Inherited v k\<close> is what a read of the key \<open>k\<close> finds on the prototype chain of the
    value \<open>v\<close> that has no own property \<open>k\<close> (for a function, on the function and its
    chain): nothing, a value, or the error that an accessor throws. In every conforming
    runtime \<^verbatim>\<open>constructor\<close> is found for each value that can be read from, and
    \<^verbatim>\<open>caller\<close> and \<^verbatim>\<open>arguments\<close> on a built-in function are accessors that throw
    a TypeError.
  \<^item> \<open>CallBuiltin f v\<close> is the result of calling the built-in function named \<open>f\<close> on the
    value \<open>v\<close> without arguments, as the conversion of an object to a primitive does with
    the methods \<^verbatim>\<open>valueOf\<close> and \<^verbatim>\<open>toString\<close>.
\<close>

record builtins =
  StringToNumber :: "string \<Rightarrow> jsnum"
  Inherited :: "jsval \<Rightarrow> string \<Rightarrow> (error + jsval) option"
  CallBuiltin :: "string \<Rightarrow> jsval \<Rightarrow> error + jsval"

subsection \<open>Property reads\<close>

definition digit_char :: "nat \<Rightarrow> char" where
  "digit_char d = char_of (48 + d)"

fun show_nat :: "nat \<Rightarrow> string" where
  "show_nat n = (if n < 10 then [digit_char n] else show_nat (n div 10) @ [digit_char (n mod 10)])"

declare show_nat.simps [simp del]

text \<open>
  A string and an array have the own properties \<^verbatim>\<open>length\<close> and one per index, whose
  key is the index in decimal without leading zeros; an object has its own properties; a
  boolean and a number have none.
\<close>

definition index_of :: "string \<Rightarrow> nat \<Rightarrow> nat option" where
  "index_of k n = find (\<lambda>i. show_nat i = k) [0..<n]"

fun own_prop :: "jsval \<Rightarrow> string \<Rightarrow> jsval option" where
  "own_prop (Json (JStr s)) k =
     (if k = ''length'' then Some (Json (JNum (Fin (of_nat (length s)))))
      else map_option (\<lambda>i. Json (JStr [s ! i])) (index_of k (length s)))"
| "own_prop (Json (JArr vs)) k =
     (if k = ''length'' then Some (Json (JNum (Fin (of_nat (length vs)))))
      else map_option (\<lambda>i. Json (vs ! i)) (index_of k (length vs)))"
| "own_prop (Json (JObj ps)) k = map_option Json (map_of ps k)"
| "own_prop v k = None"

text \<open>
  \<^verbatim>\<open>v[k]\<close>: reading a property of \<^verbatim>\<open>undefined\<close> or \<^verbatim>\<open>null\<close> throws a TypeError.
  On every other value an own property comes first, then the prototype chain, and a key
  found nowhere reads as \<^verbatim>\<open>undefined\<close>.
\<close>

definition get_prop :: "builtins \<Rightarrow> jsval \<Rightarrow> string \<Rightarrow> error + jsval" where
  "get_prop rt v k =
     (if v = Undefined \<or> v = Json JNull then Inl TypeError
      else (case own_prop v k of
              Some x \<Rightarrow> Inr x
            | None \<Rightarrow> (case Inherited rt v k of Some r \<Rightarrow> r | None \<Rightarrow> Inr Undefined)))"

subsection \<open>The nested-path lookup of the sort comparator\<close>

text \<open>
  \<^verbatim>\<open>const getNestedValue = (obj, path) =>
       path.split('.').reduce((acc, part) => acc && acc[part], obj);\<close>
\<close>

fun js_split :: "char \<Rightarrow> string \<Rightarrow> string list" where
  "js_split c [] = [[]]"
| "js_split c (x # xs) =
     (if x = c then [] # js_split c xs
      else (case js_split c xs of w # ws \<Rightarrow> (x # w) # ws | [] \<Rightarrow> [[x]]))"

text \<open>The callback of the reduce: \<^verbatim>\<open>acc && acc[part]\<close>.\<close>

definition access :: "builtins \<Rightarrow> jsval \<Rightarrow> string \<Rightarrow> error + jsval" where
  "access rt acc part = (if truthy acc then get_prop rt acc part else Inr acc)"

text \<open>\<^verbatim>\<open>reduce\<close> with an initial value; a callback that throws ends it.\<close>

fun reduce :: "('b \<Rightarrow> 'a \<Rightarrow> error + 'b) \<Rightarrow> 'a list \<Rightarrow> 'b \<Rightarrow> error + 'b" where
  "reduce f [] acc = Inr acc"
| "reduce f (p # ps) acc = (case f acc p of Inl e \<Rightarrow> Inl e | Inr v \<Rightarrow> reduce f ps v)"

definition getNestedValue :: "builtins \<Rightarrow> jsval \<Rightarrow> string \<Rightarrow> error + jsval" where
  "getNestedValue rt obj path = reduce (access rt) (js_split (CHR ''.'') path) obj"

section \<open>Relational comparison\<close>

text \<open>
  \<^verbatim>\<open>a < b\<close> first turns each operand into a primitive, the left one first. An object,
  an array or a function is asked for its \<^verbatim>\<open>valueOf\<close> and then for its
  \<^verbatim>\<open>toString\<close>: a method that is a function is called, and the first result that is
  a primitive is taken; when neither gives one, the conversion throws a TypeError. Reading
  the method is a property read, so an own property of that name comes before the
  inherited method. (A method under the symbol \<^verbatim>\<open>Symbol.toPrimitive\<close> would be asked
  first; no JSON value and no function of the standard library has one.)
\<close>

fun is_object :: "jsval \<Rightarrow> bool" where
  "is_object (Function f) = True"
| "is_object (Json (JArr vs)) = True"
| "is_object (Json (JObj ps)) = True"
| "is_object v = False"

definition call_method :: "builtins \<Rightarrow> jsval \<Rightarrow> string \<Rightarrow> error + jsval option" where
  "call_method rt v name =
     (case get_prop rt v name of
        Inl e \<Rightarrow> Inl e
      | Inr (Function f) \<Rightarrow>
          (case CallBuiltin rt f v of
             Inl e \<Rightarrow> Inl e
           | Inr r \<Rightarrow> Inr (if is_object r then None else Some r))
      | Inr m \<Rightarrow> Inr None)"

definition toPrimitive :: "builtins \<Rightarrow> jsval \<Rightarrow> error + jsval" where
  "toPrimitive rt v =
     (if \<not> is_object v then Inr v
      else (case call_method rt v ''valueOf'' of
              Inl e \<Rightarrow> Inl e
            | Inr (Some p) \<Rightarrow> Inr p
            | Inr None \<Rightarrow>
                (case call_method rt v ''toString'' of
                   Inl e \<Rightarrow> Inl e
                 | Inr (Some p) \<Rightarrow> Inr p
                 | Inr None \<Rightarrow> Inl TypeError)))"

text \<open>ToNumber of a primitive.\<close>

fun toNumber :: "builtins \<Rightarrow> jsval \<Rightarrow> jsnum" where
  "toNumber rt Undefined = NaN"
| "toNumber rt (Json JNull) = Fin 0"
| "toNumber rt (Json (JBool b)) = Fin (if b then 1 else 0)"
| "toNumber rt (Json (JNum n)) = n"
| "toNumber rt (Json (JStr s)) = StringToNumber rt s"
| "toNumber rt v = NaN"

fun num_lt :: "jsnum \<Rightarrow> jsnum \<Rightarrow> bool" where
  "num_lt NaN y = False"
| "num_lt x NaN = False"
| "num_lt x NegInf = False"
| "num_lt NegInf y = True"
| "num_lt PosInf y = False"
| "num_lt x PosInf = True"
| "num_lt (Fin a) (Fin b) = (a < b)"

text \<open>Strings compare lexicographically by code unit; a proper prefix is smaller.\<close>

fun str_lt :: "string \<Rightarrow> string \<Rightarrow> bool" where
  "str_lt [] [] = False"
| "str_lt [] (y # ys) = True"
| "str_lt (x # xs) [] = False"
| "str_lt (x # xs) (y # ys) =
     (if (of_char x :: nat) < of_char y then True
      else if (of_char y :: nat) < of_char x then False
      else str_lt xs ys)"

text \<open>
  Two primitives: two strings are compared by code units, every other pair as numbers,
  and a comparison with \<^verbatim>\<open>NaN\<close> is false.
\<close>

definition prim_lt :: "builtins \<Rightarrow> jsval \<Rightarrow> jsval \<Rightarrow> bool" where
  "prim_lt rt p q =
     (case (p, q) of
        (Json (JStr s), Json (JStr t)) \<Rightarrow> str_lt s t
      | _ \<Rightarrow> num_lt (toNumber rt p) (toNumber rt q))"

text \<open>\<^verbatim>\<open>a < b\<close> and \<^verbatim>\<open>a > b\<close>; the second is \<^verbatim>\<open>b < a\<close> on the primitives.\<close>

definition js_lt :: "builtins \<Rightarrow> jsval \<Rightarrow> jsval \<Rightarrow> error + bool" where
  "js_lt rt a b =
     (case toPrimitive rt a of
        Inl e \<Rightarrow> Inl e
      | Inr p \<Rightarrow> (case toPrimitive rt b of Inl e \<Rightarrow> Inl e | Inr q \<Rightarrow> Inr (prim_lt rt p q)))"

definition js_gt :: "builtins \<Rightarrow> jsval \<Rightarrow> jsval \<Rightarrow> error + bool" where
  "js_gt rt a b =
     (case toPrimitive rt a of
        Inl e \<Rightarrow> Inl e
      | Inr p \<Rightarrow> (case toPrimitive rt b of Inl e \<Rightarrow> Inl e | Inr q \<Rightarrow> Inr (prim_lt rt q p)))"

section \<open>String methods\<close>

text \<open>
  \<^verbatim>\<open>toLowerCase\<close> on the code units below 256: the letters A to Z, and the capital
  letters of Latin-1 (192 to 222 but the multiplication sign, 215), move up by 32.
\<close>

definition lower_char :: "char \<Rightarrow> char" where
  "lower_char c =
     (let n = (of_char c :: nat)
      in if (65 \<le> n \<and> n \<le> 90) \<or> (192 \<le> n \<and> n \<le> 222 \<and> n \<noteq> 215)
         then char_of (n + 32) else c)"

definition toLowerCase :: "string \<Rightarrow> string" where
  "toLowerCase s = map lower_char s"

text \<open>
  The method call \<^verbatim>\<open>v.toLowerCase()\<close>: only a string has the method; on
  \<^verbatim>\<open>undefined\<close>, \<^verbatim>\<open>null\<close> and every other value the call throws a TypeError.
\<close>

fun call_toLowerCase :: "jsval \<Rightarrow> error + jsval" where
  "call_toLowerCase (Json (JStr s)) = Inr (Json (JStr (toLowerCase s)))"
| "call_toLowerCase v = Inl TypeError"

text \<open>\<^verbatim>\<open>s.includes(q)\<close>: \<^verbatim>\<open>q\<close> occurs in \<^verbatim>\<open>s\<close> as a contiguous run.\<close>

fun includes_str :: "string \<Rightarrow> string \<Rightarrow> bool" where
  "includes_str [] q = (q = [])"
| "includes_str (x # xs) q = (prefix q (x # xs) \<or> includes_str xs q)"

section \<open>The view pipeline of the listing screen\<close>

subsection \<open>Filtering\<close>

text \<open>
  \<^verbatim>\<open>user => user.name.toLowerCase().includes(lowercasedQuery)\<close>
\<close>

definition name_matches :: "builtins \<Rightarrow> string \<Rightarrow> json \<Rightarrow> error + bool" where
  "name_matches rt lowercasedQuery user =
     (case get_prop rt (Json user) ''name'' of
        Inl e \<Rightarrow> Inl e
      | Inr n \<Rightarrow>
          (case call_toLowerCase n of
             Inl e \<Rightarrow> Inl e
           | Inr (Json (JStr l)) \<Rightarrow> Inr (includes_str l lowercasedQuery)
           | Inr v \<Rightarrow> Inl TypeError))"

text \<open>\<^verbatim>\<open>Array.prototype.filter\<close>; a predicate that throws ends it.\<close>

fun filter_arr :: "('a \<Rightarrow> error + bool) \<Rightarrow> 'a list \<Rightarrow> error + 'a list" where
  "filter_arr p [] = Inr []"
| "filter_arr p (x # xs) =
     (case p x of
        Inl e \<Rightarrow> Inl e
      | Inr b \<Rightarrow>
          (case filter_arr p xs of
             Inl e \<Rightarrow> Inl e
           | Inr ys \<Rightarrow> Inr (if b then x # ys else ys)))"

text \<open>
  \<^verbatim>\<open>if (searchQuery) { const lowercasedQuery = searchQuery.toLowerCase();
       filteredUsers = filteredUsers.filter(...); }\<close>
\<close>

definition filter_stage :: "builtins \<Rightarrow> json list \<Rightarrow> string \<Rightarrow> error + json list" where
  "filter_stage rt users searchQuery =
     (if searchQuery \<noteq> [] then filter_arr (name_matches rt (toLowerCase searchQuery)) users
      else Inr users)"

subsection \<open>Sorting\<close>

datatype direction = Ascending | Descending

text \<open>
  \<^verbatim>\<open>const valA = (typeof getNestedValue(a, sortColumn) === 'string')
       ? getNestedValue(a, sortColumn).toLowerCase() : getNestedValue(a, sortColumn);\<close>
\<close>

definition sort_val :: "builtins \<Rightarrow> json \<Rightarrow> string \<Rightarrow> error + jsval" where
  "sort_val rt a sortColumn =
     (case getNestedValue rt (Json a) sortColumn of
        Inl e \<Rightarrow> Inl e
      | Inr t \<Rightarrow>
          if typeof t = ''string''
          then (case getNestedValue rt (Json a) sortColumn of
                  Inl e \<Rightarrow> Inl e
                | Inr v \<Rightarrow> call_toLowerCase v)
          else getNestedValue rt (Json a) sortColumn)"

text \<open>
  The comparator handed to \<^verbatim>\<open>sort\<close>:
  \<^verbatim>\<open>if (valA < valB) return sortDirection === 'ascending' ? -1 : 1;
       if (valA > valB) return sortDirection === 'ascending' ? 1 : -1;
       return 0;\<close>
\<close>

definition comparator :: "builtins \<Rightarrow> string \<Rightarrow> direction \<Rightarrow> json \<Rightarrow> json \<Rightarrow> error + int" where
  "comparator rt sortColumn sortDirection a b =
     (case sort_val rt a sortColumn of
        Inl e \<Rightarrow> Inl e
      | Inr valA \<Rightarrow>
          (case sort_val rt b sortColumn of
             Inl e \<Rightarrow> Inl e
           | Inr valB \<Rightarrow>
               (case js_lt rt valA valB of
                  Inl e \<Rightarrow> Inl e
                | Inr lt \<Rightarrow>
                    if lt then Inr (if sortDirection = Ascending then - 1 else 1)
                    else (case js_gt rt valA valB of
                            Inl e \<Rightarrow> Inl e
                          | Inr gt \<Rightarrow>
                              if gt then Inr (if sortDirection = Ascending then 1 else - 1)
                              else Inr 0))))"

text \<open>
  \<^verbatim>\<open>Array.prototype.sort\<close> with a comparator. ECMAScript fixes the result for a
  consistent comparator only: the one stable sorted rearrangement of the array. For any
  other comparator the order is left to the implementation, and the comparator of the
  listing screen is not always consistent, so the embedding follows the implementation:
  the sort of V8, as it runs on an array of fewer than 64 elements. An array of fewer than
  two elements is returned as it is, without a call of the comparator. Otherwise the
  run at the start of the array is taken: while each element is not smaller than the one
  before it, or, when the second element is smaller than the first, while each element is
  smaller than the one before it, and then the run is reversed. Each remaining element in
  turn is put into the sorted part at the place a binary search finds for it. (On 64 and
  more elements V8 sorts pieces this way and merges them; under a consistent comparator
  the result is the same.) A comparator that throws ends the sort.
\<close>

fun extend_run ::
  "('a \<Rightarrow> 'a \<Rightarrow> error + int) \<Rightarrow> bool \<Rightarrow> 'a \<Rightarrow> 'a list \<Rightarrow> 'a list \<Rightarrow> error + 'a list \<times> 'a list" where
  "extend_run cmp descending previous run [] = Inr (run, [])"
| "extend_run cmp descending previous run (current # rest) =
     (case cmp current previous of
        Inl e \<Rightarrow> Inl e
      | Inr order \<Rightarrow>
          if (if descending then 0 \<le> order else order < 0) then Inr (run, current # rest)
          else extend_run cmp descending current (run @ [current]) rest)"

fun count_and_make_run ::
  "('a \<Rightarrow> 'a \<Rightarrow> error + int) \<Rightarrow> 'a list \<Rightarrow> error + 'a list \<times> 'a list" where
  "count_and_make_run cmp (low # high # rest) =
     (case cmp high low of
        Inl e \<Rightarrow> Inl e
      | Inr order \<Rightarrow>
          (case extend_run cmp (order < 0) high [low, high] rest of
             Inl e \<Rightarrow> Inl e
           | Inr (run, rest') \<Rightarrow> Inr (if order < 0 then rev run else run, rest')))"
| "count_and_make_run cmp xs = Inr (xs, [])"

text \<open>
  The place of the pivot in the sorted part, searched between \<open>left\<close> and \<open>right\<close>:
  the search keeps the pivot to the right of every element it is not smaller than. The
  index \<open>mid\<close> is below \<open>right\<close>, which starts as the length of the sorted part.
\<close>

function binary_search ::
  "('a \<Rightarrow> 'a \<Rightarrow> error + int) \<Rightarrow> 'a \<Rightarrow> 'a list \<Rightarrow> nat \<Rightarrow> nat \<Rightarrow> error + nat" where
  "binary_search cmp pivot xs left right =
     (if left < right
      then (let mid = left + (right - left) div 2
            in case cmp pivot (xs ! mid) of
                 Inl e \<Rightarrow> Inl e
               | Inr order \<Rightarrow>
                   if order < 0 then binary_search cmp pivot xs left mid
                   else binary_search cmp pivot xs (mid + 1) right)
      else Inr left)"
  by pat_completeness auto
termination
  by (relation "measure (\<lambda>(cmp, pivot, xs, left, right). right - left)") auto

declare binary_search.simps [simp del]

fun binary_insertion_sort ::
  "('a \<Rightarrow> 'a \<Rightarrow> error + int) \<Rightarrow> 'a list \<Rightarrow> 'a list \<Rightarrow> error + 'a list" where
  "binary_insertion_sort cmp placed [] = Inr placed"
| "binary_insertion_sort cmp placed (pivot # rest) =
     (case binary_search cmp pivot placed 0 (length placed) of
        Inl e \<Rightarrow> Inl e
      | Inr left \<Rightarrow>
          binary_insertion_sort cmp (take left placed @ pivot # drop left placed) rest)"

definition js_sort :: "('a \<Rightarrow> 'a \<Rightarrow> error + int) \<Rightarrow> 'a list \<Rightarrow> error + 'a list" where
  "js_sort cmp xs =
     (if length xs < 2 then Inr xs
      else (case count_and_make_run cmp xs of
              Inl e \<Rightarrow> Inl e
            | Inr (run, rest) \<Rightarrow> binary_insertion_sort cmp run rest))"

text \<open>\<^verbatim>\<open>if (sortColumn) { filteredUsers.sort((a, b) => ...); }\<close>\<close>

definition sort_stage :: "builtins \<Rightarrow> json list \<Rightarrow> string \<Rightarrow> direction \<Rightarrow> error + json list" where
  "sort_stage rt filteredUsers sortColumn sortDirection =
     (if sortColumn \<noteq> [] then js_sort (comparator rt sortColumn sortDirection) filteredUsers
      else Inr filteredUsers)"

definition processedUsers ::
  "builtins \<Rightarrow> json list \<Rightarrow> string \<Rightarrow> string \<Rightarrow> direction \<Rightarrow> error + json list" where
  "processedUsers rt users searchQuery sortColumn sortDirection =
     (case filter_stage rt users searchQuery of
        Inl e \<Rightarrow> Inl e
      | Inr filteredUsers \<Rightarrow> sort_stage rt filteredUsers sortColumn sortDirection)"

subsection \<open>Pagination\<close>

text \<open>
  \<^verbatim>\<open>Array.prototype.slice(start, end)\<close> on integers: a negative bound counts from the
  end, both bounds are clamped to the array, and an empty range gives the empty array.
\<close>

definition js_slice :: "'a list \<Rightarrow> int \<Rightarrow> int \<Rightarrow> 'a list" where
  "js_slice xs start end =
     (let len = int (length xs);
          k = (if start < 0 then max (len + start) 0 else min start len);
          final = (if end < 0 then max (len + end) 0 else min end len)
      in take (nat (final - k)) (drop (nat k) xs))"

text \<open>
  \<^verbatim>\<open>const from = page * itemsPerPage; const to = from + itemsPerPage;
       return processedUsers.slice(from, to);\<close>
\<close>

definition paginatedUsers :: "int \<Rightarrow> int \<Rightarrow> 'a list \<Rightarrow> 'a list" where
  "paginatedUsers page itemsPerPage processed =
     (let from = page * itemsPerPage; to = from + itemsPerPage
      in js_slice processed from to)"

text \<open>
  \<^verbatim>\<open>numberOfPages={Math.ceil(processedUsers.length / itemsPerPage)}\<close>: the quotient of
  two integers below \<open>2\<^sup>5\<^sup>3\<close> rounds to an integer only when it is one, so the ceiling
  of the double is the ceiling of the exact quotient. Division by zero gives infinity,
  or \<^verbatim>\<open>NaN\<close> for \<^verbatim>\<open>0 / 0\<close>.
\<close>

definition numberOfPages :: "nat \<Rightarrow> int \<Rightarrow> jsnum" where
  "numberOfPages len itemsPerPage =
     (if itemsPerPage = 0 then (if len = 0 then NaN else PosInf)
      else Fin (of_int \<lceil>(of_nat len :: rat) / of_int itemsPerPage\<rceil>))"

subsection \<open>View state and its handlers\<close>

record view_state =
  searchQuery :: string
  sortColumn :: string
  sortDirection :: direction
  page :: int
  itemsPerPage :: int

definition initial_state :: view_state where
  "initial_state =
     \<lparr>searchQuery = [], sortColumn = ''name'', sortDirection = Ascending, page = 0, itemsPerPage = 5\<rparr>"

definition handleSort :: "string \<Rightarrow> view_state \<Rightarrow> view_state" where
  "handleSort column st =
     (if sortColumn st = column
      then st\<lparr>sortDirection := (if sortDirection st = Ascending then Descending else Ascending)\<rparr>
      else st\<lparr>sortColumn := column, sortDirection := Ascending\<rparr>)"

definition handleSearch :: "string \<Rightarrow> view_state \<Rightarrow> view_state" where
  "handleSearch query st = st\<lparr>searchQuery := query, page := 0\<rparr>"

text \<open>\<^verbatim>\<open>onPageChange={p => setPage(p)}\<close> and \<^verbatim>\<open>onItemsPerPageChange={setItemsPerPage}\<close>.\<close>

definition onPageChange :: "int \<Rightarrow> view_state \<Rightarrow> view_state" where
  "onPageChange p st = st\<lparr>page := p\<rparr>"

definition onItemsPerPageChange :: "int \<Rightarrow> view_state \<Rightarrow> view_state" where
  "onItemsPerPageChange n st = st\<lparr>itemsPerPage := n\<rparr>"

text \<open>What the table shows in a state: the rows of the page and the number of pages.\<close>

definition visible_rows :: "builtins \<Rightarrow> json list \<Rightarrow> view_state \<Rightarrow> error + json list" where
  "visible_rows rt users st =
     (case processedUsers rt users (searchQuery st) (sortColumn st) (sortDirection st) of
        Inl e \<Rightarrow> Inl e
      | Inr processed \<Rightarrow> Inr (paginatedUsers (page st) (itemsPerPage st) processed))"

definition total_pages :: "builtins \<Rightarrow> json list \<Rightarrow> view_state \<Rightarrow> error + jsnum" where
  "total_pages rt users st =
     (case processedUsers rt users (searchQuery st) (sortColumn st) (sortDirection st) of
        Inl e \<Rightarrow> Inl e
      | Inr processed \<Rightarrow> Inr (numberOfPages (length processed) (itemsPerPage st)))"

section \<open>The login screen\<close>

text \<open>
  \<^verbatim>\<open>const regex = /^[^\s@]+@[^\s@]+\.[^\s@]+$/; return regex.test(email);\<close>
  The pattern is a sequence of items, each a literal character or one or more characters
  of a class; anchored at both ends, it has to match the whole string.
\<close>

datatype rx_item = Lit char | Plus "char \<Rightarrow> bool"

fun rx_match :: "rx_item list \<Rightarrow> string \<Rightarrow> bool" where
  "rx_match [] s = (s = [])"
| "rx_match (Lit c # r) [] = False"
| "rx_match (Lit c # r) (x # xs) = (x = c \<and> rx_match r xs)"
| "rx_match (Plus P # r) [] = False"
| "rx_match (Plus P # r) (x # xs) = (P x \<and> (rx_match r xs \<or> rx_match (Plus P # r) xs))"

text \<open>\<^verbatim>\<open>\s\<close> on the code units below 256: tab to carriage return, space, no-break space.\<close>

definition is_space :: "char \<Rightarrow> bool" where
  "is_space c = (let n = (of_char c :: nat) in (9 \<le> n \<and> n \<le> 13) \<or> n = 32 \<or> n = 160)"

definition not_space_at :: "char \<Rightarrow> bool" where
  "not_space_at c = (\<not> is_space c \<and> c \<noteq> CHR ''@'')"

definition validateEmail :: "string \<Rightarrow> bool" where
  "validateEmail email =
     rx_match [Plus not_space_at, Lit (CHR ''@''), Plus not_space_at, Lit (CHR ''.''), Plus not_space_at]
       email"

text \<open>
  \<^verbatim>\<open>JSON.stringify({ email })\<close>: the one key, and the string between double quotes
  with the quote, the backslash and the control characters escaped.
\<close>

definition hex_digit :: "nat \<Rightarrow> char" where
  "hex_digit d = ''0123456789abcdef'' ! d"

definition json_escape :: "char \<Rightarrow> string" where
  "json_escape c =
     (let n = (of_char c :: nat)
      in if n = 34 then [CHR 0x5C, CHR 0x22]
         else if n = 92 then [CHR 0x5C, CHR 0x5C]
         else if n = 8 then [CHR 0x5C, CHR ''b'']
         else if n = 12 then [CHR 0x5C, CHR ''f'']
         else if n = 10 then [CHR 0x5C, CHR ''n'']
         else if n = 13 then [CHR 0x5C, CHR ''r'']
         else if n = 9 then [CHR 0x5C, CHR ''t'']
         else if n < 32 then [CHR 0x5C, CHR ''u'', CHR ''0'', CHR ''0'', hex_digit (n div 16), hex_digit (n mod 16)]
         else [c])"

definition stringify_email :: "string \<Rightarrow> string" where
  "stringify_email email =
     [CHR ''{'', CHR 0x22] @ ''email'' @ [CHR 0x22, CHR '':'', CHR 0x22]
       @ concat (map json_escape email) @ [CHR 0x22, CHR ''}'']"

text \<open>
  What \<^verbatim>\<open>handleLogin\<close> does to the world: it shows an alert or replaces the screen,
  and it may write the session store (\<^verbatim>\<open>AsyncStorage\<close>, keys to strings).
\<close>

datatype effect = Alert string string | NavigationReplace string

type_synonym storage = "string \<rightharpoonup> string"

definition handleLogin :: "string \<Rightarrow> string \<Rightarrow> storage \<Rightarrow> storage \<times> effect list" where
  "handleLogin email pass store =
     (if email = [] \<or> pass = []
      then (store, [Alert ''Validation Error'' ''Please enter both email and password''])
      else if \<not> validateEmail email
      then (store, [Alert ''Invalid Email'' ''Please enter a valid email address''])
      else if email = ''test@gmail.com'' \<and> pass = ''pass123''
      then (store(''user'' \<mapsto> stringify_email email), [NavigationReplace ''Home''])
      else (store, [Alert ''Login Failed'' ''Invalid email or password'']))"

section \<open>Notions used in the statements\<close>

text \<open>
  Insertion sort as a pure function: each element in turn goes before the first element it
  is smaller than. Under a consistent comparator it gives the stable sorted rearrangement
  (lemmas \<open>sorted_isort\<close>, \<open>filter_isort\<close> and \<open>isort_unique\<close> below), which is what
  \<open>js_sort\<close> returns then (lemma \<open>js_sort_isort\<close>).
\<close>

fun ins :: "('a \<Rightarrow> 'a \<Rightarrow> int) \<Rightarrow> 'a \<Rightarrow> 'a list \<Rightarrow> 'a list" where
  "ins f x [] = [x]"
| "ins f x (y # ys) = (if f x y < 0 then x # y # ys else y # ins f x ys)"

definition isort :: "('a \<Rightarrow> 'a \<Rightarrow> int) \<Rightarrow> 'a list \<Rightarrow> 'a list" where
  "isort f xs = foldl (\<lambda>acc x. ins f x acc) [] xs"

text \<open>
  A consistent comparator, as ECMAScript calls it, on the elements of a list: the sign of
  \<open>f a b\<close> mirrors the sign of \<open>f b a\<close>, and "not greater" is transitive. Only for such
  a comparator does the language fix what \<^verbatim>\<open>sort\<close> returns.
\<close>

definition consistent_on :: "('a \<Rightarrow> 'a \<Rightarrow> int) \<Rightarrow> 'a list \<Rightarrow> bool" where
  "consistent_on f xs =
     (\<forall>a\<in>set xs. \<forall>b\<in>set xs.
        (f a b < 0 \<longleftrightarrow> 0 < f b a) \<and>
        (\<forall>c\<in>set xs. f a b \<le> 0 \<and> f b c \<le> 0 \<longrightarrow> f a c \<le> 0))"

text \<open>The comparator returns a number, and does not throw, on every pair of a list.\<close>

definition returns_on :: "('a \<Rightarrow> 'a \<Rightarrow> error + int) \<Rightarrow> 'a list \<Rightarrow> bool" where
  "returns_on cmp xs = (\<forall>a\<in>set xs. \<forall>b\<in>set xs. \<not> isl (cmp a b))"

text \<open>
  The value a record is sorted by (\<^verbatim>\<open>valA\<close>, \<^verbatim>\<open>valB\<close> of the source) and the
  number the comparator returns, read off \<open>sort_val\<close> and \<open>comparator\<close> where they
  return.
\<close>

definition key_of :: "builtins \<Rightarrow> json \<Rightarrow> string \<Rightarrow> jsval" where
  "key_of rt a col = (case sort_val rt a col of Inr v \<Rightarrow> v | Inl e \<Rightarrow> Undefined)"

definition cmp_of :: "builtins \<Rightarrow> string \<Rightarrow> direction \<Rightarrow> json \<Rightarrow> json \<Rightarrow> int" where
  "cmp_of rt col dir a b = (case comparator rt col dir a b of Inr c \<Rightarrow> c | Inl e \<Rightarrow> 0)"

text \<open>A record of the data model has a string under \<^verbatim>\<open>name\<close>.\<close>

definition has_name :: "json \<Rightarrow> bool" where
  "has_name u = (case own_prop (Json u) ''name'' of Some (Json (JStr s)) \<Rightarrow> True | _ \<Rightarrow> False)"

text \<open>The name of a record, in lower case, contains the term in lower case.\<close>

definition name_contains :: "string \<Rightarrow> json \<Rightarrow> bool" where
  "name_contains T u =
     (\<exists>s pre post. own_prop (Json u) ''name'' = Some (Json (JStr s))
                    \<and> toLowerCase s = pre @ toLowerCase T @ post)"

text \<open>\<^verbatim>\<open>segments.join('.')\<close>, which undoes the split of a path.\<close>

fun js_join :: "char \<Rightarrow> string list \<Rightarrow> string" where
  "js_join c [] = []"
| "js_join c [s] = s"
| "js_join c (s # t # ts) = s @ c # js_join c (t # ts)"

text \<open>
  A path none of whose segments names a member that a JSON value inherits. The fields of
  the data model are such segments in every runtime: no built-in prototype has a member
  \<^verbatim>\<open>name\<close>, \<^verbatim>\<open>email\<close>, \<^verbatim>\<open>address\<close> or \<^verbatim>\<open>city\<close>.
\<close>

definition plain_path :: "builtins \<Rightarrow> string \<Rightarrow> bool" where
  "plain_path rt path =
     (\<forall>seg\<in>set (js_split (CHR ''.'') path). \<forall>j. Inherited rt (Json j) seg = None)"

text \<open>
  A runtime for the examples. It holds the members of the standard library that the examples
  meet, as every runtime has them: an object inherits \<^verbatim>\<open>constructor\<close>, the function
  \<^verbatim>\<open>Object\<close>, and the methods \<^verbatim>\<open>valueOf\<close>, which returns the object, and
  \<^verbatim>\<open>toString\<close>, which returns \<^verbatim>\<open>[object Object]\<close>; a boolean inherits
  \<^verbatim>\<open>constructor\<close>, the function \<^verbatim>\<open>Boolean\<close>; on a function \<^verbatim>\<open>caller\<close> and
  \<^verbatim>\<open>arguments\<close> throw. The examples compare strings and \<^verbatim>\<open>undefined\<close> only and
  never convert a string to a number.
\<close>

definition example_builtins :: builtins where
  "example_builtins =
     \<lparr>StringToNumber = (\<lambda>s. NaN),
      Inherited = (\<lambda>v k.
         case v of
           Function f \<Rightarrow> if k = ''caller'' \<or> k = ''arguments'' then Some (Inl TypeError) else None
         | Json (JObj ps) \<Rightarrow>
             if k = ''constructor'' then Some (Inr (Function ''Object''))
             else if k = ''valueOf'' then Some (Inr (Function ''Object.prototype.valueOf''))
             else if k = ''toString'' then Some (Inr (Function ''Object.prototype.toString''))
             else None
         | Json (JBool b) \<Rightarrow> if k = ''constructor'' then Some (Inr (Function ''Boolean'')) else None
         | _ \<Rightarrow> None),
      CallBuiltin = (\<lambda>f v.
         if f = ''Object.prototype.valueOf'' then Inr v
         else if f = ''Object.prototype.toString'' then Inr (Json (JStr ''[object Object]''))
         else Inl TypeError)\<rparr>"

text \<open>Twelve users, named "a" to "l".\<close>

definition twelve_users :: "json list" where
  "twelve_users = map (\<lambda>i. JObj [(''name'', JStr [char_of (97 + i)])]) [0..<12]"

text \<open>
  Example records: three users with a city, two of them in the same city but for the case
  of a letter, and four users of whom one has no email.
\<close>

definition ann :: json where
  "ann = JObj [(''name'', JStr ''Ann''), (''address'', JObj [(''city'', JStr ''Rome'')])]"

definition bob :: json where
  "bob = JObj [(''name'', JStr ''Bob''), (''address'', JObj [(''city'', JStr ''Oslo'')])]"

definition cid :: json where
  "cid = JObj [(''name'', JStr ''Cid''), (''address'', JObj [(''city'', JStr ''rome'')])]"

definition dan :: json where
  "dan = JObj [(''name'', JStr ''Dan''), (''email'', JStr ''b@x.io'')]"

definition eve :: json where
  "eve = JObj [(''name'', JStr ''Eve'')]"

definition fay :: json where
  "fay = JObj [(''name'', JStr ''Fay''), (''email'', JStr ''a@x.io'')]"

definition gus :: json where
  "gus = JObj [(''name'', JStr ''Gus''), (''email'', JStr ''a@x.io'')]"

section \<open>Lemmas: the nested-path lookup\<close>

lemma reduce_access_falsy: "\<not> truthy acc \<Longrightarrow> reduce (access rt) ps acc = Inr acc"
  by (induction ps) (simp_all add: access_def)

lemma reduce_append:
  "reduce f (ps @ qs) acc = (case reduce f ps acc of Inl e \<Rightarrow> Inl e | Inr v \<Rightarrow> reduce f qs v)"
  by (induction ps arbitrary: acc) (simp_all split: sum.splits)

lemma js_split_nonempty: "js_split c p \<noteq> []"
  by (induction p) (auto split: list.splits)

lemma js_join_split: "js_join c (js_split c p) = p"
proof (induction p)
  case Nil show ?case by simp
next
  case (Cons x p)
  then show ?case using js_split_nonempty[of c p]
    by (cases "js_split c p"; cases "tl (js_split c p)") (auto split: list.splits)
qed

lemma js_split_no_sep: "s \<in> set (js_split c p) \<Longrightarrow> c \<notin> set s"
  by (induction p arbitrary: s) (auto split: if_splits list.splits)

lemma own_prop_json: "own_prop v k = Some x \<Longrightarrow> \<exists>j. x = Json j"
  by (cases "(v, k)" rule: own_prop.cases) (auto split: if_splits)

text \<open>A segment that names no inherited member is read off the own properties.\<close>

lemma get_prop_plain:
  assumes "Inherited rt (Json j) seg = None" and "j \<noteq> JNull"
  shows "get_prop rt (Json j) seg = Inr (case own_prop (Json j) seg of Some x \<Rightarrow> x | None \<Rightarrow> Undefined)"
  using assms by (simp add: get_prop_def split: option.splits)

lemma access_plain:
  assumes "\<forall>j. Inherited rt (Json j) seg = None" and "\<forall>f. acc \<noteq> Function f"
  shows "\<exists>v. access rt acc seg = Inr v \<and> (\<forall>f. v \<noteq> Function f)"
proof (cases acc)
  case Undefined
  then show ?thesis by (simp add: access_def)
next
  case (Function f)
  with assms(2) show ?thesis by simp
next
  case (Json j)
  show ?thesis
  proof (cases "truthy acc")
    case False
    then show ?thesis using Json by (simp add: access_def)
  next
    case True
    then have "j \<noteq> JNull" using Json by auto
    then have "get_prop rt (Json j) seg
                 = Inr (case own_prop (Json j) seg of Some x \<Rightarrow> x | None \<Rightarrow> Undefined)"
      using assms(1) get_prop_plain by blast
    moreover have "\<forall>f. (case own_prop (Json j) seg of Some x \<Rightarrow> x | None \<Rightarrow> Undefined) \<noteq> Function f"
      using own_prop_json [of "Json j" seg] by (auto split: option.splits)
    ultimately show ?thesis using True Json by (simp add: access_def)
  qed
qed

lemma reduce_access_plain:
  assumes "\<forall>seg\<in>set segs. \<forall>j. Inherited rt (Json j) seg = None" and "\<forall>f. acc \<noteq> Function f"
  shows "\<exists>v. reduce (access rt) segs acc = Inr v \<and> (\<forall>f. v \<noteq> Function f)"
  using assms
proof (induction segs arbitrary: acc)
  case Nil
  then show ?case by simp
next
  case (Cons seg segs)
  obtain v where v: "access rt acc seg = Inr v" "\<forall>f. v \<noteq> Function f"
    using access_plain [of rt seg acc] Cons.prems by auto
  then show ?case
    using Cons.IH [of v] Cons.prems(1) by simp
qed

lemma getNestedValue_plain:
  assumes "plain_path rt path"
  shows "\<exists>v. getNestedValue rt (Json obj) path = Inr v \<and> (\<forall>f. v \<noteq> Function f)"
  using assms reduce_access_plain [of "js_split (CHR ''.'') path" rt "Json obj"]
  by (simp add: getNestedValue_def plain_path_def)

lemma intermediate_falsy:
  assumes "js_split (CHR ''.'') path = ps @ qs" and "reduce (access rt) ps obj = Inr v" and "\<not> truthy v"
  shows "getNestedValue rt obj path = Inr v"
  using assms by (simp add: getNestedValue_def reduce_append reduce_access_falsy)

lemma intermediate_primitive:
  assumes "js_split (CHR ''.'') path = ps @ q # qs" and "reduce (access rt) ps obj = Inr v"
    and "v = Json (JBool True) \<or> (\<exists>n. v = Json (JNum n) \<and> truthy v)"
    and "Inherited rt v q = None"
  shows "getNestedValue rt obj path = Inr Undefined"
  using assms
  by (auto simp add: getNestedValue_def reduce_append reduce_access_falsy access_def get_prop_def)

text \<open>
  In every runtime where a record inherits \<^verbatim>\<open>constructor\<close>, a function, and
  \<^verbatim>\<open>caller\<close> on that function throws, the lookup of \<^verbatim>\<open>constructor.caller\<close>
  throws.
\<close>

lemma constructor_caller_throws:
  assumes "map_of ps ''constructor'' = None"
    and "Inherited rt (Json (JObj ps)) ''constructor'' = Some (Inr (Function f))"
    and "Inherited rt (Function f) ''caller'' = Some (Inl TypeError)"
  shows "getNestedValue rt (Json (JObj ps)) ''constructor.caller'' = Inl TypeError"
  using assms by (simp add: getNestedValue_def access_def get_prop_def)

section \<open>Lemmas: insertion sort under a consistent comparator\<close>

lemma isort_snoc: "isort f (xs @ [x]) = ins f x (isort f xs)"
  by (simp add: isort_def)

lemma isort_Nil: "isort f [] = []"
  by (simp add: isort_def)

lemma mset_ins: "mset (ins f x ys) = add_mset x (mset ys)"
  by (induction ys) simp_all

lemma mset_isort: "mset (isort f xs) = mset xs"
  by (induction xs rule: rev_induct) (simp_all add: isort_Nil isort_snoc mset_ins)

lemma set_ins: "set (ins f x ys) = insert x (set ys)"
  by (induction ys) auto

lemma set_isort: "set (isort f xs) = set xs"
  using mset_isort [of f xs] by (metis set_mset_mset)

lemma consistent_on_cong: "set xs = set ys \<Longrightarrow> consistent_on f xs = consistent_on f ys"
  by (simp add: consistent_on_def)

lemma consistent_antisym:
  "consistent_on f xs \<Longrightarrow> a \<in> set xs \<Longrightarrow> b \<in> set xs \<Longrightarrow> (f a b < 0) = (0 < f b a)"
  unfolding consistent_on_def by blast

lemma consistent_trans:
  "consistent_on f xs \<Longrightarrow> a \<in> set xs \<Longrightarrow> b \<in> set xs \<Longrightarrow> c \<in> set xs \<Longrightarrow>
   f a b \<le> 0 \<Longrightarrow> f b c \<le> 0 \<Longrightarrow> f a c \<le> 0"
  unfolding consistent_on_def by blast

lemma consistent_refl: "consistent_on f xs \<Longrightarrow> a \<in> set xs \<Longrightarrow> f a a = 0"
  using consistent_antisym [of f xs a a] by linarith

lemma consistent_total:
  "consistent_on f xs \<Longrightarrow> a \<in> set xs \<Longrightarrow> b \<in> set xs \<Longrightarrow> \<not> f a b < 0 \<Longrightarrow> f b a \<le> 0"
  using consistent_antisym [of f xs a b] by linarith

lemma consistent_eq_sym:
  "consistent_on f xs \<Longrightarrow> a \<in> set xs \<Longrightarrow> b \<in> set xs \<Longrightarrow> f a b = 0 \<Longrightarrow> f b a = 0"
  using consistent_antisym [of f xs a b] consistent_antisym [of f xs b a] by linarith

lemma sorted_ins:
  assumes "consistent_on f zs" and "x \<in> set zs" and "set ys \<subseteq> set zs"
    and "sorted_wrt (\<lambda>a b. f a b \<le> 0) ys"
  shows "sorted_wrt (\<lambda>a b. f a b \<le> 0) (ins f x ys)"
  using assms(3,4)
proof (induction ys)
  case Nil
  show ?case by simp
next
  case (Cons y ys)
  show ?case
  proof (cases "f x y < 0")
    case True
    have "f x w \<le> 0" if "w \<in> set ys" for w
    proof -
      have "f y w \<le> 0" using Cons.prems(2) that by simp
      moreover have "f x y \<le> 0" using True by simp
      ultimately show ?thesis
        using consistent_trans [OF assms(1), of x y w] assms(2) Cons.prems(1) that by auto
    qed
    with True Cons.prems(2) show ?thesis by auto
  next
    case False
    have "f y x \<le> 0"
      using consistent_total [OF assms(1), of x y] assms(2) Cons.prems(1) False by auto
    with False Cons show ?thesis by (auto simp add: set_ins)
  qed
qed

lemma sorted_isort:
  assumes "consistent_on f xs"
  shows "sorted_wrt (\<lambda>a b. f a b \<le> 0) (isort f xs)"
proof -
  have "set ys \<subseteq> set xs \<Longrightarrow> sorted_wrt (\<lambda>a b. f a b \<le> 0) (isort f ys)" for ys
  proof (induction ys rule: rev_induct)
    case Nil
    show ?case by (simp add: isort_Nil)
  next
    case (snoc y ys)
    then show ?case
      using sorted_ins [OF assms, of y "isort f ys"] by (simp add: isort_snoc set_isort)
  qed
  then show ?thesis by simp
qed

lemma filter_ins:
  assumes cons: "consistent_on f zs" and x: "x \<in> set zs" and k: "k \<in> set zs"
    and sub: "set ys \<subseteq> set zs" and srt: "sorted_wrt (\<lambda>a b. f a b \<le> 0) ys"
  shows "filter (\<lambda>u. f k u = 0) (ins f x ys) =
         filter (\<lambda>u. f k u = 0) ys @ (if f k x = 0 then [x] else [])"
  using sub srt
proof (induction ys)
  case Nil
  show ?case by simp
next
  case (Cons y ys)
  show ?case
  proof (cases "f x y < 0")
    case False
    with Cons show ?thesis by simp
  next
    case True
    show ?thesis
    proof (cases "f k x = 0")
      case False
      with True show ?thesis by simp
    next
      case kx: True
      have "f k w \<noteq> 0" if w: "w \<in> set (y # ys)" for w
      proof
        assume kw: "f k w = 0"
        have wz: "w \<in> set zs" and yz: "y \<in> set zs"
          using w Cons.prems(1) by auto
        have "f w k = 0"
          using consistent_eq_sym [OF cons k wz kw] .
        then have wx: "f w x \<le> 0"
          using consistent_trans [OF cons wz k x] kx by simp
        have yw: "f y w \<le> 0"
        proof (cases "w = y")
          case True
          then show ?thesis using consistent_refl [OF cons yz] by simp
        next
          case False
          then show ?thesis using w Cons.prems(2) by auto
        qed
        have "f y x \<le> 0"
          using consistent_trans [OF cons yz wz x yw wx] .
        moreover have "0 < f y x"
          using consistent_antisym [OF cons x yz] True by simp
        ultimately show False by simp
      qed
      then have "filter (\<lambda>u. f k u = 0) (y # ys) = []"
        by (simp only: filter_empty_conv) blast
      with True kx show ?thesis by simp
    qed
  qed
qed

lemma filter_isort:
  assumes cons: "consistent_on f xs" and k: "k \<in> set xs"
  shows "filter (\<lambda>u. f k u = 0) (isort f xs) = filter (\<lambda>u. f k u = 0) xs"
proof -
  have "set ys \<subseteq> set xs \<Longrightarrow>
        filter (\<lambda>u. f k u = 0) (isort f ys) = filter (\<lambda>u. f k u = 0) ys" for ys
  proof (induction ys rule: rev_induct)
    case Nil
    show ?case by (simp add: isort_Nil)
  next
    case (snoc y ys)
    have sub: "set ys \<subseteq> set xs" and y: "y \<in> set xs"
      using snoc.prems by auto
    have "consistent_on f ys"
      using cons sub unfolding consistent_on_def by blast
    then have "sorted_wrt (\<lambda>a b. f a b \<le> 0) (isort f ys)"
      by (rule sorted_isort)
    then show ?case
      using filter_ins [OF cons y k, of "isort f ys"] snoc.IH [OF sub] sub
      by (simp add: isort_snoc set_isort)
  qed
  then show ?thesis by simp
qed

lemma stable_sorted_unique:
  assumes cons: "consistent_on f xs"
  shows "set ys \<subseteq> set xs \<Longrightarrow> mset ys = mset zs \<Longrightarrow>
         sorted_wrt (\<lambda>a b. f a b \<le> 0) ys \<Longrightarrow> sorted_wrt (\<lambda>a b. f a b \<le> 0) zs \<Longrightarrow>
         (\<forall>k\<in>set xs. filter (\<lambda>u. f k u = 0) ys = filter (\<lambda>u. f k u = 0) zs) \<Longrightarrow> ys = zs"
proof (induction ys arbitrary: zs)
  case Nil
  then show ?case by simp
next
  case (Cons y ys)
  from Cons.prems(2) obtain z zs' where zs: "zs = z # zs'"
    by (cases zs) auto
  have y: "y \<in> set xs" using Cons.prems(1) by simp
  have "set zs = set (y # ys)"
    using Cons.prems(2) by (metis set_mset_mset)
  then have z: "z \<in> set xs" and zin: "z \<in> set (y # ys)" and yin: "y \<in> set (z # zs')"
    using zs Cons.prems(1) by auto
  have yy: "f y y = 0" and zz: "f z z = 0"
    using consistent_refl [OF cons] y z by auto
  have yz: "f y z \<le> 0"
    using zin Cons.prems(3) yy by auto
  have zy: "f z y \<le> 0"
    using yin Cons.prems(4) zz zs by auto
  have "f y z = 0"
    using yz zy consistent_antisym [OF cons y z] by linarith
  then have "filter (\<lambda>u. f y u = 0) zs = z # filter (\<lambda>u. f y u = 0) zs'"
    using zs by simp
  moreover have "filter (\<lambda>u. f y u = 0) (y # ys) = y # filter (\<lambda>u. f y u = 0) ys"
    using yy by simp
  ultimately have eq: "y = z"
    using Cons.prems(5) y by (metis list.inject)
  have "ys = zs'"
  proof (rule Cons.IH)
    show "set ys \<subseteq> set xs" using Cons.prems(1) by simp
    show "mset ys = mset zs'" using Cons.prems(2) zs eq by simp
    show "sorted_wrt (\<lambda>a b. f a b \<le> 0) ys" using Cons.prems(3) by simp
    show "sorted_wrt (\<lambda>a b. f a b \<le> 0) zs'" using Cons.prems(4) zs by simp
    show "\<forall>k\<in>set xs. filter (\<lambda>u. f k u = 0) ys = filter (\<lambda>u. f k u = 0) zs'"
    proof
      fix k assume "k \<in> set xs"
      then have "filter (\<lambda>u. f k u = 0) (y # ys) = filter (\<lambda>u. f k u = 0) (y # zs')"
        using Cons.prems(5) zs eq by simp
      then show "filter (\<lambda>u. f k u = 0) ys = filter (\<lambda>u. f k u = 0) zs'"
        by (simp split: if_splits)
    qed
  qed
  with eq zs show ?case by simp
qed

lemma isort_unique:
  assumes cons: "consistent_on f xs" and "mset ys = mset xs"
    and "sorted_wrt (\<lambda>a b. f a b \<le> 0) ys"
    and "\<forall>k\<in>set xs. filter (\<lambda>u. f k u = 0) ys = filter (\<lambda>u. f k u = 0) xs"
  shows "ys = isort f xs"
proof (rule stable_sorted_unique [OF cons])
  show "set ys \<subseteq> set xs" using assms(2) by (metis set_mset_mset subset_refl)
  show "mset ys = mset (isort f xs)" using assms(2) by (simp add: mset_isort)
  show "sorted_wrt (\<lambda>a b. f a b \<le> 0) ys" by fact
  show "sorted_wrt (\<lambda>a b. f a b \<le> 0) (isort f xs)" using cons by (rule sorted_isort)
  show "\<forall>k\<in>set xs. filter (\<lambda>u. f k u = 0) ys = filter (\<lambda>u. f k u = 0) (isort f xs)"
    using assms(4) filter_isort [OF cons] by simp
qed

section \<open>Lemmas: the sort of the engine\<close>

text \<open>
  On a comparator that returns on the elements of the array, the sort returns a
  rearrangement of the array; on a consistent one, the stable sorted rearrangement.
\<close>

lemma binary_search_bounds:
  assumes agr: "\<And>a b. a \<in> S \<Longrightarrow> b \<in> S \<Longrightarrow> cmp a b = Inr (f a b)"
    and x: "x \<in> S" and ys: "set ys \<subseteq> S"
  shows "l \<le> r \<Longrightarrow> r \<le> length ys \<Longrightarrow> \<exists>p. binary_search cmp x ys l r = Inr p \<and> l \<le> p \<and> p \<le> r"
proof (induction "r - l" arbitrary: l r rule: less_induct)
  case less
  show ?case
  proof (cases "l < r")
    case False
    then have "binary_search cmp x ys l r = Inr l"
      by (simp add: binary_search.simps [of cmp x ys l r])
    then show ?thesis using less.prems by simp
  next
    case True
    define mid where "mid = l + (r - l) div 2"
    have m: "l \<le> mid" "mid < r" using True by (simp_all add: mid_def)
    then have "ys ! mid \<in> S" using ys less.prems(2) by (simp add: subset_iff)
    then have c: "cmp x (ys ! mid) = Inr (f x (ys ! mid))" using agr x by simp
    show ?thesis
    proof (cases "f x (ys ! mid) < 0")
      case lt: True
      have "\<exists>p. binary_search cmp x ys l mid = Inr p \<and> l \<le> p \<and> p \<le> mid"
        using less.hyps [of mid l] m less.prems by simp
      then show ?thesis
        using True lt c m by (auto simp add: binary_search.simps [of cmp x ys l r] mid_def [symmetric])
    next
      case ge: False
      have "\<exists>p. binary_search cmp x ys (mid + 1) r = Inr p \<and> mid + 1 \<le> p \<and> p \<le> r"
        using less.hyps [of r "mid + 1"] m less.prems by simp
      then show ?thesis
        using True ge c m by (auto simp add: binary_search.simps [of cmp x ys l r] mid_def [symmetric])
    qed
  qed
qed

lemma binary_search_place:
  assumes agr: "\<And>a b. a \<in> S \<Longrightarrow> b \<in> S \<Longrightarrow> cmp a b = Inr (f a b)"
    and x: "x \<in> S" and ys: "set ys \<subseteq> S"
    and mono: "\<And>i j. i \<le> j \<Longrightarrow> j < length ys \<Longrightarrow> f x (ys ! i) < 0 \<Longrightarrow> f x (ys ! j) < 0"
  shows "l \<le> r \<Longrightarrow> r \<le> length ys \<Longrightarrow> \<forall>i<l. \<not> f x (ys ! i) < 0 \<Longrightarrow>
         (r < length ys \<longrightarrow> f x (ys ! r) < 0) \<Longrightarrow>
         \<exists>p. binary_search cmp x ys l r = Inr p \<and> p \<le> length ys
              \<and> (\<forall>i<p. \<not> f x (ys ! i) < 0) \<and> (p < length ys \<longrightarrow> f x (ys ! p) < 0)"
proof (induction "r - l" arbitrary: l r rule: less_induct)
  case less
  show ?case
  proof (cases "l < r")
    case False
    then have "binary_search cmp x ys l r = Inr l"
      by (simp add: binary_search.simps [of cmp x ys l r])
    moreover have "l = r" using False less.prems(1) by simp
    ultimately show ?thesis using less.prems by simp
  next
    case True
    define mid where "mid = l + (r - l) div 2"
    have m: "l \<le> mid" "mid < r" using True by (simp_all add: mid_def)
    then have ml: "mid < length ys" using less.prems(2) by simp
    then have "ys ! mid \<in> S" using ys by (simp add: subset_iff)
    then have c: "cmp x (ys ! mid) = Inr (f x (ys ! mid))" using agr x by simp
    show ?thesis
    proof (cases "f x (ys ! mid) < 0")
      case lt: True
      have "\<exists>p. binary_search cmp x ys l mid = Inr p \<and> p \<le> length ys
              \<and> (\<forall>i<p. \<not> f x (ys ! i) < 0) \<and> (p < length ys \<longrightarrow> f x (ys ! p) < 0)"
        using less.hyps [of mid l] m ml less.prems(3) lt by simp
      then show ?thesis
        using True lt c by (simp add: binary_search.simps [of cmp x ys l r] mid_def [symmetric])
    next
      case ge: False
      have "\<not> f x (ys ! i) < 0" if "i < mid + 1" for i
      proof
        assume "f x (ys ! i) < 0"
        then have "f x (ys ! mid) < 0" using mono [of i mid] that ml by simp
        with ge show False by simp
      qed
      then have "\<exists>p. binary_search cmp x ys (mid + 1) r = Inr p \<and> p \<le> length ys
              \<and> (\<forall>i<p. \<not> f x (ys ! i) < 0) \<and> (p < length ys \<longrightarrow> f x (ys ! p) < 0)"
        using less.hyps [of r "mid + 1"] m less.prems(2,4) by simp
      then show ?thesis
        using True ge c by (simp add: binary_search.simps [of cmp x ys l r] mid_def [symmetric])
    qed
  qed
qed

lemma ins_place:
  "p \<le> length ys \<Longrightarrow> \<forall>i<p. \<not> f x (ys ! i) < 0 \<Longrightarrow> (p < length ys \<longrightarrow> f x (ys ! p) < 0) \<Longrightarrow>
   ins f x ys = take p ys @ x # drop p ys"
proof (induction ys arbitrary: p)
  case Nil
  then show ?case by simp
next
  case (Cons y ys)
  show ?case
  proof (cases p)
    case 0
    with Cons.prems show ?thesis by simp
  next
    case (Suc q)
    have "\<not> f x y < 0" using Cons.prems(2) Suc by auto
    moreover have "ins f x ys = take q ys @ x # drop q ys"
    proof (rule Cons.IH)
      show "q \<le> length ys" using Cons.prems(1) Suc by simp
      show "\<forall>i<q. \<not> f x (ys ! i) < 0" using Cons.prems(2) Suc by auto
      show "q < length ys \<longrightarrow> f x (ys ! q) < 0" using Cons.prems(3) Suc by simp
    qed
    ultimately show ?thesis using Suc by simp
  qed
qed

lemma sorted_smaller_mono:
  assumes cons: "consistent_on f zs" and x: "x \<in> set zs" and sub: "set ys \<subseteq> set zs"
    and srt: "sorted_wrt (\<lambda>a b. f a b \<le> 0) ys"
    and ij: "i \<le> j" "j < length ys" and lt: "f x (ys ! i) < 0"
  shows "f x (ys ! j) < 0"
proof (cases "i = j")
  case True
  with lt show ?thesis by simp
next
  case False
  then have "i < j" using ij by simp
  then have le: "f (ys ! i) (ys ! j) \<le> 0"
    using sorted_wrt_nth_less [OF srt _ ij(2)] by simp
  have yi: "ys ! i \<in> set zs" and yj: "ys ! j \<in> set zs"
    using sub ij by (auto simp add: subset_iff)
  show ?thesis
  proof (rule ccontr)
    assume "\<not> f x (ys ! j) < 0"
    then have "f (ys ! j) x \<le> 0"
      using consistent_total [OF cons x yj] by simp
    then have "f (ys ! i) x \<le> 0"
      using consistent_trans [OF cons yi yj x le] by simp
    moreover have "0 < f (ys ! i) x"
      using consistent_antisym [OF cons x yi] lt by simp
    ultimately show False by simp
  qed
qed

lemma binary_insertion_sort_isort:
  assumes agr: "\<And>a b. a \<in> set zs \<Longrightarrow> b \<in> set zs \<Longrightarrow> cmp a b = Inr (f a b)"
    and cons: "consistent_on f zs"
  shows "set placed \<subseteq> set zs \<Longrightarrow> set rest \<subseteq> set zs \<Longrightarrow> sorted_wrt (\<lambda>a b. f a b \<le> 0) placed \<Longrightarrow>
         binary_insertion_sort cmp placed rest = Inr (foldl (\<lambda>acc x. ins f x acc) placed rest)"
proof (induction rest arbitrary: placed)
  case Nil
  show ?case by simp
next
  case (Cons x rest)
  have x: "x \<in> set zs" using Cons.prems(2) by simp
  have "\<exists>p. binary_search cmp x placed 0 (length placed) = Inr p \<and> p \<le> length placed
              \<and> (\<forall>i<p. \<not> f x (placed ! i) < 0) \<and> (p < length placed \<longrightarrow> f x (placed ! p) < 0)"
  proof (rule binary_search_place [of "set zs" cmp f x placed 0 "length placed"])
    show "cmp a b = Inr (f a b)" if "a \<in> set zs" "b \<in> set zs" for a b using agr that .
    show "x \<in> set zs" by fact
    show "set placed \<subseteq> set zs" by fact
    show "f x (placed ! j) < 0" if "i \<le> j" "j < length placed" "f x (placed ! i) < 0" for i j
      using sorted_smaller_mono [OF cons x Cons.prems(1,3) that] .
  qed simp_all
  then obtain p where p: "binary_search cmp x placed 0 (length placed) = Inr p"
    and place: "ins f x placed = take p placed @ x # drop p placed"
    using ins_place [of _ placed f x] by blast
  have "binary_insertion_sort cmp (ins f x placed) rest
          = Inr (foldl (\<lambda>acc x. ins f x acc) (ins f x placed) rest)"
  proof (rule Cons.IH)
    show "set (ins f x placed) \<subseteq> set zs" using x Cons.prems(1) by (simp add: set_ins)
    show "set rest \<subseteq> set zs" using Cons.prems(2) by simp
    show "sorted_wrt (\<lambda>a b. f a b \<le> 0) (ins f x placed)"
      using sorted_ins [OF cons x Cons.prems(1,3)] .
  qed
  then show ?case using p place by simp
qed

lemma binary_insertion_sort_returns:
  assumes agr: "\<And>a b. a \<in> S \<Longrightarrow> b \<in> S \<Longrightarrow> cmp a b = Inr (f a b)"
  shows "set placed \<subseteq> S \<Longrightarrow> set rest \<subseteq> S \<Longrightarrow>
         \<exists>ys. binary_insertion_sort cmp placed rest = Inr ys \<and> mset ys = mset placed + mset rest"
proof (induction rest arbitrary: placed)
  case Nil
  show ?case by simp
next
  case (Cons x rest)
  have x: "x \<in> S" using Cons.prems(2) by simp
  obtain p where p: "binary_search cmp x placed 0 (length placed) = Inr p" "p \<le> length placed"
    using binary_search_bounds [of S cmp f x placed 0 "length placed"] agr x Cons.prems(1) by auto
  let ?pl = "take p placed @ x # drop p placed"
  have ms: "mset ?pl = add_mset x (mset placed)"
    by (metis append_take_drop_id mset.simps(2) mset_append union_mset_add_mset_right)
  then have "set ?pl = insert x (set placed)"
    by (metis set_mset_add_mset_insert set_mset_mset)
  then have "set ?pl \<subseteq> S" using x Cons.prems(1) by simp
  then obtain ys where "binary_insertion_sort cmp ?pl rest = Inr ys" "mset ys = mset ?pl + mset rest"
    using Cons.IH [of ?pl] Cons.prems(2) by auto
  then show ?case using p ms by simp
qed

lemma extend_run_spec:
  assumes agr: "\<And>a b. a \<in> S \<Longrightarrow> b \<in> S \<Longrightarrow> cmp a b = Inr (f a b)"
  shows "prev \<in> S \<Longrightarrow> set cs \<subseteq> S \<Longrightarrow>
         \<exists>pre post. extend_run cmp d prev run cs = Inr (run @ pre, post) \<and> cs = pre @ post
            \<and> successively (\<lambda>p c. if d then f c p < 0 else \<not> f c p < 0) (prev # pre)"
proof (induction cs arbitrary: prev run)
  case Nil
  show ?case by simp
next
  case (Cons c cs)
  let ?R = "\<lambda>p c. if d then f c p < 0 else \<not> f c p < 0"
  have cS: "c \<in> S" and csS: "set cs \<subseteq> S" using Cons.prems(2) by simp_all
  have c: "cmp c prev = Inr (f c prev)" using agr [OF cS Cons.prems(1)] .
  show ?case
  proof (cases "?R prev c")
    case False
    then have "extend_run cmp d prev run (c # cs) = Inr (run @ [], c # cs)"
      using c by (cases d) simp_all
    moreover have "c # cs = [] @ c # cs" by simp
    moreover have "successively ?R (prev # [])" by simp
    ultimately show ?thesis by blast
  next
    case True
    from Cons.IH [OF cS csS, of "run @ [c]"]
    obtain pre post where r: "extend_run cmp d c (run @ [c]) cs = Inr ((run @ [c]) @ pre, post)"
      and s: "cs = pre @ post"
      and t: "successively ?R (c # pre)"
      by blast
    have "extend_run cmp d prev run (c # cs) = extend_run cmp d c (run @ [c]) cs"
      using True c by (cases d) simp_all
    then have "extend_run cmp d prev run (c # cs) = Inr (run @ (c # pre), post)"
      using r by simp
    moreover have "c # cs = (c # pre) @ post" using s by simp
    moreover have "successively ?R (prev # c # pre)"
      using True t by simp
    ultimately show ?thesis by blast
  qed
qed

lemma count_and_make_run_spec:
  assumes agr: "\<And>a b. a \<in> S \<Longrightarrow> b \<in> S \<Longrightarrow> cmp a b = Inr (f a b)"
    and sub: "set (x0 # x1 # rest) \<subseteq> S"
  shows "\<exists>run post. count_and_make_run cmp (x0 # x1 # rest)
                      = Inr (if f x1 x0 < 0 then rev run else run, post)
            \<and> x0 # x1 # rest = run @ post
            \<and> successively (\<lambda>p c. if f x1 x0 < 0 then f c p < 0 else \<not> f c p < 0) run"
proof -
  let ?R = "\<lambda>p c. if f x1 x0 < 0 then f c p < 0 else \<not> f c p < 0"
  have x0: "x0 \<in> S" and x1: "x1 \<in> S" and rest: "set rest \<subseteq> S" using sub by simp_all
  have c: "cmp x1 x0 = Inr (f x1 x0)" using agr [OF x1 x0] .
  from extend_run_spec [of S cmp f x1 rest "f x1 x0 < 0" "[x0, x1]", OF agr x1 rest]
  obtain pre post where r: "extend_run cmp (f x1 x0 < 0) x1 [x0, x1] rest = Inr ([x0, x1] @ pre, post)"
    and s: "rest = pre @ post"
    and t: "successively ?R (x1 # pre)"
    by blast
  have "count_and_make_run cmp (x0 # x1 # rest)
          = Inr (if f x1 x0 < 0 then rev ([x0, x1] @ pre) else [x0, x1] @ pre, post)"
    using c r by simp
  moreover have "x0 # x1 # rest = ([x0, x1] @ pre) @ post" using s by simp
  moreover have "successively ?R ([x0, x1] @ pre)"
    using t by simp
  ultimately show ?thesis by blast
qed

lemma js_sort_returns:
  assumes "returns_on cmp xs"
  shows "\<exists>ys. js_sort cmp xs = Inr ys \<and> mset ys = mset xs"
proof (cases xs)
  case Nil
  then show ?thesis by (simp add: js_sort_def)
next
  case (Cons x0 xs')
  show ?thesis
  proof (cases xs')
    case Nil
    then show ?thesis using Cons by (simp add: js_sort_def)
  next
    case (Cons x1 rest)
    define f where "f = (\<lambda>a b. projr (cmp a b))"
    have agr: "cmp a b = Inr (f a b)" if "a \<in> set xs" "b \<in> set xs" for a b
      using assms that by (simp add: returns_on_def f_def)
    have xs: "xs = x0 # x1 # rest" using \<open>xs = x0 # xs'\<close> Cons by simp
    obtain run post where r: "count_and_make_run cmp xs = Inr (if f x1 x0 < 0 then rev run else run, post)"
      and s: "xs = run @ post"
      using count_and_make_run_spec [of "set xs" cmp f x0 x1 rest] agr xs by auto
    let ?run = "if f x1 x0 < 0 then rev run else run"
    have "set ?run \<subseteq> set xs" and "set post \<subseteq> set xs" using s by auto
    then obtain ys where "binary_insertion_sort cmp ?run post = Inr ys" "mset ys = mset ?run + mset post"
      using binary_insertion_sort_returns [of "set xs" cmp f ?run post] agr by blast
    then show ?thesis using r s xs by (auto simp add: js_sort_def)
  qed
qed

lemma consistent_strict_trans:
  assumes cons: "consistent_on f zs" and a: "a \<in> set zs" and b: "b \<in> set zs" and c: "c \<in> set zs"
    and ab: "f a b < 0" and bc: "f b c < 0"
  shows "f a c < 0"
proof (rule ccontr)
  assume "\<not> f a c < 0"
  then have "f c a \<le> 0" using consistent_total [OF cons a c] by simp
  then have "f c b \<le> 0" using consistent_trans [OF cons c a b] ab by simp
  moreover have "0 < f c b" using consistent_antisym [OF cons b c] bc by simp
  ultimately show False by simp
qed

lemma sorted_isort_id:
  assumes cons: "consistent_on f zs" and sub: "set ys \<subseteq> set zs"
    and srt: "sorted_wrt (\<lambda>a b. f a b \<le> 0) ys"
  shows "isort f ys = ys"
proof (rule sym, rule isort_unique)
  show "consistent_on f ys" using cons sub unfolding consistent_on_def by blast
  show "sorted_wrt (\<lambda>a b. f a b \<le> 0) ys" by fact
qed simp_all

lemma ascending_run_isort:
  assumes cons: "consistent_on f zs" and sub: "set run \<subseteq> set zs"
    and run: "successively (\<lambda>p c. \<not> f c p < 0) run"
  shows "isort f run = run"
proof -
  have "successively (\<lambda>a b. f a b \<le> 0) run"
  proof (rule successively_mono [OF run])
    fix p c assume "p \<in> set run" "c \<in> set run" "\<not> f c p < 0"
    then show "f p c \<le> 0" using consistent_total [OF cons, of c p] sub by auto
  qed
  moreover have "successively (\<lambda>a b. f a b \<le> 0) run = sorted_wrt (\<lambda>a b. f a b \<le> 0) run"
  proof (rule successively_iff_sorted_wrt_strong)
    fix x y z assume "x \<in> set run" "y \<in> set run" "z \<in> set run" "f x y \<le> 0" "f y z \<le> 0"
    then show "f x z \<le> 0" using consistent_trans [OF cons, of x y z] sub by auto
  qed
  ultimately show ?thesis using sorted_isort_id [OF cons sub] by simp
qed

lemma strict_class_single:
  assumes cons: "consistent_on f zs" and k: "k \<in> set zs"
  shows "set ys \<subseteq> set zs \<Longrightarrow> sorted_wrt (\<lambda>a b. f a b < 0) ys \<Longrightarrow>
         length (filter (\<lambda>u. f k u = 0) ys) \<le> 1"
proof (induction ys)
  case Nil
  show ?case by simp
next
  case (Cons y ys)
  show ?case
  proof (cases "f k y = 0")
    case False
    with Cons show ?thesis by simp
  next
    case True
    have y: "y \<in> set zs" using Cons.prems(1) by simp
    have "f k w \<noteq> 0" if w: "w \<in> set ys" for w
    proof
      assume kw: "f k w = 0"
      have wz: "w \<in> set zs" using w Cons.prems(1) by auto
      have "f w k = 0" using consistent_eq_sym [OF cons k wz kw] .
      then have "f w y \<le> 0" using consistent_trans [OF cons wz k y] True by simp
      moreover have "f y w < 0" using Cons.prems(2) w by simp
      then have "0 < f w y" using consistent_antisym [OF cons y wz] by simp
      ultimately show False by simp
    qed
    then have "filter (\<lambda>u. f k u = 0) ys = []"
      by (simp only: filter_empty_conv) blast
    with True show ?thesis by simp
  qed
qed

lemma descending_run_isort:
  assumes cons: "consistent_on f zs" and sub: "set run \<subseteq> set zs"
    and run: "successively (\<lambda>p c. f c p < 0) run"
  shows "isort f run = rev run"
proof (rule sym, rule isort_unique)
  show c: "consistent_on f run" using cons sub unfolding consistent_on_def by blast
  show "mset (rev run) = mset run" by simp
  have "successively (\<lambda>a b. f a b < 0) (rev run)"
    using run by simp
  moreover have "successively (\<lambda>a b. f a b < 0) (rev run) = sorted_wrt (\<lambda>a b. f a b < 0) (rev run)"
  proof (rule successively_iff_sorted_wrt_strong)
    fix x y z assume "x \<in> set (rev run)" "y \<in> set (rev run)" "z \<in> set (rev run)" "f x y < 0" "f y z < 0"
    then show "f x z < 0" using consistent_strict_trans [OF cons, of x y z] sub by auto
  qed
  ultimately have strict: "sorted_wrt (\<lambda>a b. f a b < 0) (rev run)" by simp
  show "sorted_wrt (\<lambda>a b. f a b \<le> 0) (rev run)"
    by (rule sorted_wrt_mono_rel [OF _ strict]) simp
  show "\<forall>k\<in>set run. filter (\<lambda>u. f k u = 0) (rev run) = filter (\<lambda>u. f k u = 0) run"
  proof
    fix k assume k: "k \<in> set run"
    have "length (filter (\<lambda>u. f k u = 0) (rev run)) \<le> 1"
      using strict_class_single [OF c k _ strict] by simp
    then have "rev (filter (\<lambda>u. f k u = 0) (rev run)) = filter (\<lambda>u. f k u = 0) (rev run)"
      by (cases "filter (\<lambda>u. f k u = 0) (rev run)") (simp_all add: le_Suc_eq)
    then show "filter (\<lambda>u. f k u = 0) (rev run) = filter (\<lambda>u. f k u = 0) run"
      by (simp add: rev_filter)
  qed
qed

lemma js_sort_isort:
  assumes agr: "\<And>a b. a \<in> set xs \<Longrightarrow> b \<in> set xs \<Longrightarrow> cmp a b = Inr (f a b)"
    and cons: "consistent_on f xs"
  shows "js_sort cmp xs = Inr (isort f xs)"
proof (cases xs)
  case Nil
  then show ?thesis by (simp add: js_sort_def isort_def)
next
  case (Cons x0 xs')
  show ?thesis
  proof (cases xs')
    case Nil
    then show ?thesis using Cons by (simp add: js_sort_def isort_def)
  next
    case (Cons x1 rest)
    have xs: "xs = x0 # x1 # rest" using \<open>xs = x0 # xs'\<close> Cons by simp
    obtain run post where r: "count_and_make_run cmp xs = Inr (if f x1 x0 < 0 then rev run else run, post)"
      and s: "xs = run @ post"
      and t: "successively (\<lambda>p c. if f x1 x0 < 0 then f c p < 0 else \<not> f c p < 0) run"
      using count_and_make_run_spec [of "set xs" cmp f x0 x1 rest] agr xs by auto
    let ?run = "if f x1 x0 < 0 then rev run else run"
    have sub: "set run \<subseteq> set xs" and post: "set post \<subseteq> set xs" using s by auto
    have run: "?run = isort f run"
    proof (cases "f x1 x0 < 0")
      case True
      then show ?thesis using descending_run_isort [OF cons sub] t by simp
    next
      case False
      then show ?thesis using ascending_run_isort [OF cons sub] t by simp
    qed
    have "consistent_on f run" using cons sub unfolding consistent_on_def by blast
    then have srt: "sorted_wrt (\<lambda>a b. f a b \<le> 0) (isort f run)" by (rule sorted_isort)
    have "binary_insertion_sort cmp (isort f run) post
            = Inr (foldl (\<lambda>acc x. ins f x acc) (isort f run) post)"
      using binary_insertion_sort_isort [of xs cmp f "isort f run" post] agr cons sub post srt
      by (simp add: set_isort)
    also have "foldl (\<lambda>acc x. ins f x acc) (isort f run) post = isort f xs"
      using s by (simp add: isort_def)
    finally show ?thesis using r run xs by (simp add: js_sort_def)
  qed
qed

section \<open>Lemmas: the comparator of the listing screen\<close>

lemma typeof_string: "typeof t = ''string'' \<longleftrightarrow> (\<exists>s. t = Json (JStr s))"
  by (cases t rule: typeof.cases) simp_all

lemma sort_val_eq:
  "getNestedValue rt (Json a) col = Inr v \<Longrightarrow>
   sort_val rt a col = Inr (case v of Json (JStr s) \<Rightarrow> Json (JStr (toLowerCase s)) | _ \<Rightarrow> v)"
  by (cases v rule: typeof.cases) (simp_all add: sort_val_def)

lemma key_of_string:
  "getNestedValue rt (Json u) col = Inr (Json (JStr s)) \<Longrightarrow>
   sort_val rt u col = Inr (Json (JStr (toLowerCase s)))"
  by (simp add: sort_val_eq)

lemma key_of_undefined:
  "getNestedValue rt (Json a) col = Inr Undefined \<Longrightarrow> sort_val rt a col = Inr Undefined"
  by (simp add: sort_val_eq)

lemma toPrimitive_primitive: "\<not> is_object v \<Longrightarrow> toPrimitive rt v = Inr v"
  by (simp add: toPrimitive_def)

lemma num_lt_NaN: "\<not> num_lt x NaN"
  by (cases x) simp_all

lemma prim_lt_undefined: "\<not> prim_lt rt Undefined p" "\<not> prim_lt rt p Undefined"
  by (simp_all add: prim_lt_def num_lt_NaN split: jsval.splits json.splits)

lemma prim_lt_strings: "prim_lt rt (Json (JStr s)) (Json (JStr t)) = str_lt s t"
  by (simp add: prim_lt_def)

lemma js_lt_strings:
  "js_lt rt (Json (JStr s)) (Json (JStr t)) = Inr (str_lt s t)"
  "js_gt rt (Json (JStr s)) (Json (JStr t)) = Inr (str_lt t s)"
  by (simp_all add: js_lt_def js_gt_def toPrimitive_primitive prim_lt_strings)

lemma js_lt_undefined:
  assumes "toPrimitive rt v = Inr p"
  shows "js_lt rt Undefined v = Inr False" "js_gt rt Undefined v = Inr False"
    "js_lt rt v Undefined = Inr False" "js_gt rt v Undefined = Inr False"
  using assms by (simp_all add: js_lt_def js_gt_def toPrimitive_primitive prim_lt_undefined)

lemma comparator_values:
  assumes "sort_val rt a col = Inr va" and "sort_val rt b col = Inr vb"
    and "js_lt rt va vb = Inr lt" and "js_gt rt va vb = Inr gt"
  shows "comparator rt col dir a b
           = Inr (if lt then (if dir = Ascending then - 1 else 1)
                  else if gt then (if dir = Ascending then 1 else - 1) else 0)"
  using assms by (simp add: comparator_def)

lemma comparator_strings:
  assumes "sort_val rt a col = Inr (Json (JStr s))" and "sort_val rt b col = Inr (Json (JStr t))"
  shows "comparator rt col dir a b
           = Inr (if str_lt s t then (if dir = Ascending then - 1 else 1)
                  else if str_lt t s then (if dir = Ascending then 1 else - 1) else 0)"
  using assms by (simp add: comparator_values js_lt_strings)

lemma comparator_undefined:
  assumes "sort_val rt a col = Inr va" and "sort_val rt b col = Inr vb"
    and "va = Undefined \<or> vb = Undefined"
    and "toPrimitive rt va = Inr pa" and "toPrimitive rt vb = Inr pb"
  shows "comparator rt col dir a b = Inr 0"
proof -
  have "js_lt rt va vb = Inr False" and "js_gt rt va vb = Inr False"
    using assms(3-5) js_lt_undefined by blast+
  then show ?thesis
    using comparator_values [OF assms(1,2), of False False dir] by simp
qed

lemma comparator_direction:
  "comparator rt col Descending a b = map_sum id uminus (comparator rt col Ascending a b)"
  by (simp add: comparator_def split: sum.splits)

lemma comparator_isl: "isl (comparator rt col d a b) = isl (comparator rt col d' a b)"
  by (cases d; cases d') (simp_all add: comparator_direction isl_map_sum)

lemma cmp_descending: "cmp_of rt col Descending a b = - cmp_of rt col Ascending a b"
  by (cases "comparator rt col Ascending a b") (simp_all add: cmp_of_def comparator_direction)

lemma returns_on_direction: "returns_on (comparator rt col d) xs = returns_on (comparator rt col d') xs"
  using comparator_isl [of rt col d _ _ d'] by (simp add: returns_on_def)

lemma returns_on_subset: "returns_on cmp xs \<Longrightarrow> set ys \<subseteq> set xs \<Longrightarrow> returns_on cmp ys"
  unfolding returns_on_def by blast

lemma comparator_cmp:
  "returns_on (comparator rt col dir) xs \<Longrightarrow> a \<in> set xs \<Longrightarrow> b \<in> set xs \<Longrightarrow>
   comparator rt col dir a b = Inr (cmp_of rt col dir a b)"
proof -
  assume "returns_on (comparator rt col dir) xs" and "a \<in> set xs" and "b \<in> set xs"
  then have "\<not> isl (comparator rt col dir a b)"
    unfolding returns_on_def by blast
  then show ?thesis
    by (cases "comparator rt col dir a b") (simp_all add: cmp_of_def)
qed

lemma str_lt_irrefl: "\<not> str_lt s s"
  by (induction s) simp_all

lemma str_lt_trans: "str_lt s t \<Longrightarrow> str_lt t u \<Longrightarrow> str_lt s u"
proof (induction s t arbitrary: u rule: str_lt.induct)
  case (4 x xs y ys)
  then show ?case
    by (cases u) (auto split: if_splits)
qed (auto elim: str_lt.elims)

lemma str_lt_total: "s \<noteq> t \<Longrightarrow> str_lt s t \<or> str_lt t s"
proof (induction s t rule: str_lt.induct)
  case (4 x xs y ys)
  then show ?case
    by (cases "(of_char x :: nat) = of_char y") auto
qed simp_all

lemma str_lt_asym: "str_lt s t \<Longrightarrow> \<not> str_lt t s"
  using str_lt_trans str_lt_irrefl by blast

lemma consistent_on_negate:
  assumes "consistent_on f xs"
  shows "consistent_on (\<lambda>a b. - f a b) xs"
  unfolding consistent_on_def
proof (intro ballI conjI impI)
  fix a b assume a: "a \<in> set xs" and b: "b \<in> set xs"
  show "(- f a b < 0) = (0 < - f b a)"
    using consistent_antisym [OF assms b a] by auto
  fix c assume c: "c \<in> set xs" and h: "- f a b \<le> 0 \<and> - f b c \<le> 0"
  have "f b a \<le> 0"
    using h consistent_antisym [OF assms a b] by linarith
  moreover have "f c b \<le> 0"
    using h consistent_antisym [OF assms b c] by linarith
  ultimately have "f c a \<le> 0"
    using consistent_trans [OF assms c b a] by simp
  then show "- f a c \<le> 0"
    using consistent_antisym [OF assms a c] by linarith
qed

lemma consistent_on_subset:
  "consistent_on f xs \<Longrightarrow> set ys \<subseteq> set xs \<Longrightarrow> consistent_on f ys"
  unfolding consistent_on_def by blast

lemma str_lt_negtrans: "\<not> str_lt t s \<Longrightarrow> \<not> str_lt u t \<Longrightarrow> \<not> str_lt u s"
proof
  assume ts: "\<not> str_lt t s" and ut: "\<not> str_lt u t" and us: "str_lt u s"
  show False
  proof (cases "s = t")
    case True with us ut show False by simp
  next
    case False
    then have "str_lt s t" using ts str_lt_total by blast
    then have "str_lt u t" using us str_lt_trans by blast
    with ut show False by simp
  qed
qed


lemma cmp_of_direction:
  assumes h: "consistent_on (cmp_of rt col d) xs"
  shows "consistent_on (cmp_of rt col d') xs"
proof (cases "d = d'")
  case True
  with h show ?thesis by simp
next
  case False
  have flip: "cmp_of rt col d' = (\<lambda>a b. - cmp_of rt col d a b)"
    using False by (cases d; cases d') (auto simp add: cmp_descending fun_eq_iff)
  show ?thesis
    unfolding flip using h by (rule consistent_on_negate)
qed

lemma cmp_zero_direction: "(cmp_of rt col d a b = 0) = (cmp_of rt col d' a b = 0)"
  by (cases d; cases d') (simp_all add: cmp_descending)

lemma cmp_strings:
  assumes "sort_val rt a col = Inr (Json (JStr s))" and "sort_val rt b col = Inr (Json (JStr t))"
  shows "(cmp_of rt col Ascending a b < 0) = str_lt s t"
    and "(0 < cmp_of rt col Ascending a b) = str_lt t s"
    and "(cmp_of rt col Ascending a b \<le> 0) = (\<not> str_lt t s)"
  using str_lt_asym [of s t] by (simp_all add: cmp_of_def comparator_strings [OF assms])

lemma string_keys_consistent:
  assumes "\<forall>u\<in>set xs. \<exists>s. sort_val rt u col = Inr (Json (JStr s))"
  shows "returns_on (comparator rt col dir) xs" and "consistent_on (cmp_of rt col dir) xs"
proof -
  show "returns_on (comparator rt col dir) xs"
    unfolding returns_on_def
  proof (intro ballI)
    fix a b assume "a \<in> set xs" and "b \<in> set xs"
    then obtain s t where "sort_val rt a col = Inr (Json (JStr s))" "sort_val rt b col = Inr (Json (JStr t))"
      using assms by blast
    then show "\<not> isl (comparator rt col dir a b)"
      by (simp add: comparator_strings)
  qed
  have asc: "consistent_on (cmp_of rt col Ascending) xs"
    unfolding consistent_on_def
  proof (intro ballI conjI impI)
    fix a b assume a: "a \<in> set xs" and b: "b \<in> set xs"
    obtain s t where s: "sort_val rt a col = Inr (Json (JStr s))"
      and t: "sort_val rt b col = Inr (Json (JStr t))"
      using assms a b by blast
    show "(cmp_of rt col Ascending a b < 0) = (0 < cmp_of rt col Ascending b a)"
      by (simp only: cmp_strings(1) [OF s t] cmp_strings(2) [OF t s])
    fix c assume c: "c \<in> set xs"
      and h: "cmp_of rt col Ascending a b \<le> 0 \<and> cmp_of rt col Ascending b c \<le> 0"
    obtain u where u: "sort_val rt c col = Inr (Json (JStr u))"
      using assms c by blast
    have ts: "\<not> str_lt t s" and ut: "\<not> str_lt u t"
      using h by (simp_all add: cmp_strings(3) [OF s t] cmp_strings(3) [OF t u])
    then have "\<not> str_lt u s"
      by (rule str_lt_negtrans)
    then show "cmp_of rt col Ascending a c \<le> 0"
      by (simp add: cmp_strings(3) [OF s u])
  qed
  then show "consistent_on (cmp_of rt col dir) xs" by (rule cmp_of_direction)
qed

lemma string_values_consistent:
  assumes "\<forall>u\<in>set xs. \<exists>s. getNestedValue rt (Json u) col = Inr (Json (JStr s))"
  shows "returns_on (comparator rt col dir) xs \<and> consistent_on (cmp_of rt col dir) xs"
proof -
  have "\<forall>u\<in>set xs. \<exists>s. sort_val rt u col = Inr (Json (JStr s))"
  proof
    fix u assume "u \<in> set xs"
    then obtain s where "getNestedValue rt (Json u) col = Inr (Json (JStr s))" using assms by blast
    then have "sort_val rt u col = Inr (Json (JStr (toLowerCase s)))" by (rule key_of_string)
    then show "\<exists>s. sort_val rt u col = Inr (Json (JStr s))" by simp
  qed
  then show ?thesis
    using string_keys_consistent by blast
qed

lemma undefined_values_consistent:
  assumes "\<forall>u\<in>set xs. getNestedValue rt (Json u) col = Inr Undefined"
  shows "returns_on (comparator rt col dir) xs \<and> consistent_on (cmp_of rt col dir) xs"
proof -
  have z: "comparator rt col dir a b = Inr 0" if "a \<in> set xs" "b \<in> set xs" for a b
  proof -
    have "sort_val rt a col = Inr Undefined" and "sort_val rt b col = Inr Undefined"
      using assms that key_of_undefined by blast+
    then show ?thesis
      using comparator_undefined [of rt a col Undefined b Undefined Undefined Undefined dir]
      by (simp add: toPrimitive_primitive)
  qed
  then have "returns_on (comparator rt col dir) xs"
    by (simp add: returns_on_def)
  moreover have "consistent_on (cmp_of rt col dir) xs"
    using z by (simp add: consistent_on_def cmp_of_def)
  ultimately show ?thesis by simp
qed

lemma sort_stage_isort:
  assumes "col \<noteq> []" and "returns_on (comparator rt col dir) xs"
    and "consistent_on (cmp_of rt col dir) xs"
  shows "sort_stage rt xs col dir = Inr (isort (cmp_of rt col dir) xs)"
proof -
  have "js_sort (comparator rt col dir) xs = Inr (isort (cmp_of rt col dir) xs)"
  proof (rule js_sort_isort)
    show "comparator rt col dir a b = Inr (cmp_of rt col dir a b)"
      if "a \<in> set xs" "b \<in> set xs" for a b
      using comparator_cmp [OF assms(2) that] .
    show "consistent_on (cmp_of rt col dir) xs" by fact
  qed
  then show ?thesis using assms(1) by (simp add: sort_stage_def)
qed

lemma sort_stage_returns:
  assumes "col = [] \<or> length xs < 2 \<or> returns_on (comparator rt col dir) xs"
  shows "\<exists>ys. sort_stage rt xs col dir = Inr ys \<and> mset ys = mset xs"
proof (cases "col = [] \<or> length xs < 2")
  case True
  then show ?thesis by (auto simp add: sort_stage_def js_sort_def)
next
  case False
  then have "returns_on (comparator rt col dir) xs" using assms by simp
  then show ?thesis
    using js_sort_returns [of "comparator rt col dir" xs] False by (simp add: sort_stage_def)
qed

lemma round_trip:
  assumes cons: "consistent_on (cmp_of rt col Ascending) xs"
  shows "isort (cmp_of rt col Ascending) (isort (cmp_of rt col Descending) (isort (cmp_of rt col Ascending) xs))
         = isort (cmp_of rt col Ascending) xs"
proof -
  let ?A = "cmp_of rt col Ascending" and ?D = "cmp_of rt col Descending"
  let ?a = "isort ?A xs"
  let ?d = "isort ?D ?a"
  let ?a' = "isort ?A ?d"
  have set_a: "set ?a = set xs" and set_d: "set ?d = set xs"
    by (simp_all add: set_isort)
  have consD_a: "consistent_on ?D ?a"
    using cmp_of_direction [OF cons] consistent_on_cong [OF set_a] by blast
  have consA_d: "consistent_on ?A ?d"
    using cons consistent_on_cong [OF set_d] by blast
  have "?a' = isort ?A ?a"
  proof (rule isort_unique)
    show "consistent_on ?A ?a" using cons consistent_on_cong [OF set_a] by blast
    show "mset ?a' = mset ?a" by (simp add: mset_isort)
    show "sorted_wrt (\<lambda>a b. ?A a b \<le> 0) ?a'" using consA_d by (rule sorted_isort)
    show "\<forall>k\<in>set ?a. filter (\<lambda>u. ?A k u = 0) ?a' = filter (\<lambda>u. ?A k u = 0) ?a"
    proof
      fix k assume k: "k \<in> set ?a"
      have E: "(\<lambda>u. ?A k u = 0) = (\<lambda>u. ?D k u = 0)"
        by (intro ext) (rule cmp_zero_direction)
      have "filter (\<lambda>u. ?A k u = 0) ?a' = filter (\<lambda>u. ?A k u = 0) ?d"
        using filter_isort [OF consA_d] k set_a set_d by simp
      also have "\<dots> = filter (\<lambda>u. ?D k u = 0) ?d"
        by (simp only: E)
      also have "\<dots> = filter (\<lambda>u. ?D k u = 0) ?a"
        using filter_isort [OF consD_a] k by simp
      also have "\<dots> = filter (\<lambda>u. ?A k u = 0) ?a"
        by (simp only: E)
      finally show "filter (\<lambda>u. ?A k u = 0) ?a' = filter (\<lambda>u. ?A k u = 0) ?a" .
    qed
  qed
  moreover have "isort ?A ?a = ?a"
  proof (rule sym, rule isort_unique)
    show "consistent_on ?A ?a" using cons consistent_on_cong [OF set_a] by blast
    show "sorted_wrt (\<lambda>a b. ?A a b \<le> 0) ?a" using cons by (rule sorted_isort)
  qed simp_all
  ultimately show ?thesis by simp
qed

lemma sort_stage_round_trip:
  assumes ret: "returns_on (comparator rt col Ascending) C"
    and cons: "consistent_on (cmp_of rt col Ascending) C"
  shows "\<exists>asc desc. sort_stage rt C col Ascending = Inr asc
           \<and> sort_stage rt asc col Descending = Inr desc
           \<and> sort_stage rt desc col Ascending = Inr asc"
proof (cases "col = []")
  case True
  then show ?thesis by (simp add: sort_stage_def)
next
  case False
  let ?A = "cmp_of rt col Ascending" and ?D = "cmp_of rt col Descending"
  let ?a = "isort ?A C"
  let ?d = "isort ?D ?a"
  have set_a: "set ?a = set C" and set_d: "set ?d = set C"
    by (simp_all add: set_isort)
  have 1: "sort_stage rt C col Ascending = Inr ?a"
    using False ret cons by (rule sort_stage_isort)
  have 2: "sort_stage rt ?a col Descending = Inr ?d"
  proof (rule sort_stage_isort [OF False])
    show "returns_on (comparator rt col Descending) ?a"
      using ret returns_on_direction [of rt col Descending ?a Ascending]
        returns_on_subset [of "comparator rt col Ascending" C ?a] set_a by simp
    show "consistent_on ?D ?a"
      using cmp_of_direction [OF cons] consistent_on_cong [OF set_a] by blast
  qed
  have 3: "sort_stage rt ?d col Ascending = Inr (isort ?A ?d)"
  proof (rule sort_stage_isort [OF False])
    show "returns_on (comparator rt col Ascending) ?d"
      using ret returns_on_subset [of "comparator rt col Ascending" C ?d] set_d by simp
    show "consistent_on ?A ?d"
      using cons consistent_on_cong [OF set_d] by blast
  qed
  show ?thesis
    using 1 2 3 round_trip [OF cons] by simp
qed

lemma comparator_returns_lt:
  assumes "\<not> isl (comparator rt col dir a b)"
  shows "\<exists>t. js_lt rt (key_of rt a col) (key_of rt b col) = Inr t
           \<and> (t \<longrightarrow> cmp_of rt col dir a b = (if dir = Ascending then - 1 else 1))"
  using assms
  by (auto simp add: comparator_def key_of_def cmp_of_def split: sum.splits if_splits)

lemma cmp_ascending_le:
  assumes "returns_on (comparator rt col Ascending) xs"
    and "consistent_on (cmp_of rt col Ascending) xs" and "a \<in> set xs" and "b \<in> set xs"
    and "cmp_of rt col Ascending a b \<le> 0"
  shows "js_lt rt (key_of rt b col) (key_of rt a col) = Inr False"
proof -
  have "\<not> isl (comparator rt col Ascending b a)"
    using assms(1,3,4) unfolding returns_on_def by blast
  then obtain t where t: "js_lt rt (key_of rt b col) (key_of rt a col) = Inr t"
    and v: "t \<longrightarrow> cmp_of rt col Ascending b a = - 1"
    using comparator_returns_lt [of rt col Ascending b a] by auto
  have "\<not> t"
  proof
    assume t
    then have "cmp_of rt col Ascending b a < 0" using v by simp
    then have "0 < cmp_of rt col Ascending a b"
      using consistent_antisym [OF assms(2) assms(4) assms(3)] by simp
    with assms(5) show False by simp
  qed
  with t show ?thesis by simp
qed

lemma cmp_descending_le:
  assumes "returns_on (comparator rt col Descending) xs" and "a \<in> set xs" and "b \<in> set xs"
    and "cmp_of rt col Descending a b \<le> 0"
  shows "js_lt rt (key_of rt a col) (key_of rt b col) = Inr False"
proof -
  have "\<not> isl (comparator rt col Descending a b)"
    using assms(1-3) unfolding returns_on_def by blast
  then obtain t where t: "js_lt rt (key_of rt a col) (key_of rt b col) = Inr t"
    and v: "t \<longrightarrow> cmp_of rt col Descending a b = 1"
    using comparator_returns_lt [of rt col Descending a b] by auto
  have "\<not> t" using v assms(4) by auto
  with t show ?thesis by simp
qed

lemma handleSort_twice: "sortColumn st = col \<Longrightarrow> handleSort col (handleSort col st) = st"
  by (cases "sortDirection st") (simp_all add: handleSort_def)

section \<open>Lemmas: filtering and pagination\<close>

lemma includes_str_iff: "includes_str s q \<longleftrightarrow> (\<exists>pre post. s = pre @ q @ post)"
proof (induction s)
  case Nil
  show ?case by auto
next
  case (Cons x xs)
  show ?case
  proof
    assume "includes_str (x # xs) q"
    then consider "prefix q (x # xs)" | "includes_str xs q" by auto
    then show "\<exists>pre post. x # xs = pre @ q @ post"
    proof cases
      case 1
      then obtain post where "x # xs = q @ post" by (auto simp: prefix_def)
      then have "x # xs = [] @ q @ post" by simp
      then show ?thesis by blast
    next
      case 2
      then obtain pre post where "xs = pre @ q @ post" using Cons.IH by blast
      then have "x # xs = (x # pre) @ q @ post" by simp
      then show ?thesis by blast
    qed
  next
    assume "\<exists>pre post. x # xs = pre @ q @ post"
    then obtain pre post where e: "x # xs = pre @ q @ post" by blast
    show "includes_str (x # xs) q"
    proof (cases pre)
      case Nil
      with e have "prefix q (x # xs)" by (simp add: prefix_def)
      then show ?thesis by simp
    next
      case (Cons p pre')
      with e have "xs = pre' @ q @ post" by simp
      then have "includes_str xs q" using Cons.IH by blast
      then show ?thesis by simp
    qed
  qed
qed

lemma filter_arr_total:
  "(\<And>x. x \<in> set xs \<Longrightarrow> p x = Inr (P x)) \<Longrightarrow> filter_arr p xs = Inr (filter P xs)"
  by (induction xs) simp_all

lemma has_name_iff: "has_name u \<longleftrightarrow> (\<exists>s. own_prop (Json u) ''name'' = Some (Json (JStr s)))"
  by (auto simp add: has_name_def split: option.splits jsval.splits json.splits)

lemma get_prop_own: "own_prop (Json u) k = Some x \<Longrightarrow> get_prop rt (Json u) k = Inr x"
  by (cases u) (auto simp add: get_prop_def)

lemma name_matches_string:
  "own_prop (Json u) ''name'' = Some (Json (JStr s)) \<Longrightarrow>
   name_matches rt q u = Inr (includes_str (toLowerCase s) q)"
  by (simp add: name_matches_def get_prop_own)

lemma filter_stage_names:
  assumes "\<forall>u\<in>set C. has_name u" and "T \<noteq> []"
  shows "filter_stage rt C T = Inr (filter (name_contains T) C)"
proof -
  have "name_matches rt (toLowerCase T) u = Inr (name_contains T u)" if "u \<in> set C" for u
  proof -
    have "has_name u"
      using assms(1) that by simp
    then obtain s where s: "own_prop (Json u) ''name'' = Some (Json (JStr s))"
      unfolding has_name_iff by (rule exE)
    have "name_matches rt (toLowerCase T) u = Inr (includes_str (toLowerCase s) (toLowerCase T))"
      using s by (rule name_matches_string)
    moreover have "name_contains T u = includes_str (toLowerCase s) (toLowerCase T)"
    proof
      assume "name_contains T u"
      then obtain s' pre post where s': "own_prop (Json u) ''name'' = Some (Json (JStr s'))"
        and e: "toLowerCase s' = pre @ toLowerCase T @ post"
        unfolding name_contains_def by blast
      from s s' have "s' = s" by simp
      with e show "includes_str (toLowerCase s) (toLowerCase T)"
        unfolding includes_str_iff by blast
    next
      assume "includes_str (toLowerCase s) (toLowerCase T)"
      then show "name_contains T u"
        unfolding includes_str_iff name_contains_def using s by blast
    qed
    ultimately show ?thesis by simp
  qed
  then have "filter_arr (name_matches rt (toLowerCase T)) C = Inr (filter (name_contains T) C)"
    using filter_arr_total [of C "name_matches rt (toLowerCase T)" "name_contains T"] by blast
  then show ?thesis using assms(2) by (simp add: filter_stage_def)
qed

lemma filter_stage_total:
  assumes "q = [] \<or> (\<forall>u\<in>set users. has_name u)"
  shows "\<exists>ys. filter_stage rt users q = Inr ys \<and> set ys \<subseteq> set users"
proof (cases "q = []")
  case True
  then show ?thesis by (simp add: filter_stage_def)
next
  case False
  with assms have "\<forall>u\<in>set users. has_name u" by simp
  then show ?thesis using False by (simp add: filter_stage_names)
qed

lemma js_slice_beyond: "int (length xs) \<le> start \<Longrightarrow> js_slice xs start end = []"
  by (simp add: js_slice_def Let_def min_def max_def)

lemma js_slice_nat: "js_slice xs (int a) (int a + int k) = take k (drop a xs)"
proof (cases "length xs \<le> a")
  case True
  then show ?thesis by (simp add: js_slice_def Let_def min_def)
next
  case False
  then show ?thesis
    by (cases "a + k \<le> length xs") (auto simp add: js_slice_def Let_def min_def)
qed

lemma paginatedUsers_nat:
  "paginatedUsers (int p) (int k) xs = take k (drop (p * k) xs)"
proof -
  have "int p * int k = int (p * k)" by simp
  then show ?thesis
    by (simp only: paginatedUsers_def Let_def js_slice_nat)
qed

lemma concat_pages: "concat (map (\<lambda>p. take k (drop (p * k) xs)) [0..<n]) = take (n * k) xs"
proof (induction n)
  case 0
  show ?case by simp
next
  case (Suc n)
  have "take (n * k + k) xs = take (n * k) xs @ take k (drop (n * k) xs)"
    by (rule take_add)
  with Suc show ?case by (simp add: add.commute)
qed

lemma pages_bounds:
  assumes "0 < k" and n_def: "n = nat \<lceil>(of_nat len :: rat) / of_nat k\<rceil>"
  shows "\<lceil>(of_nat len :: rat) / of_nat k\<rceil> = int n" and "len \<le> n * k" and "n * k < len + k"
proof -
  let ?x = "(of_nat len :: rat) / of_nat k"
  have k: "(0 :: rat) < of_nat k" using assms(1) by simp
  have "0 \<le> ?x" by simp
  then have "0 \<le> \<lceil>?x\<rceil>" by linarith
  then show n: "\<lceil>?x\<rceil> = int n" by (simp add: n_def)
  have c: "of_int \<lceil>?x\<rceil> - 1 < ?x \<and> ?x \<le> of_int \<lceil>?x\<rceil>"
    by (rule ceiling_correct)
  have "?x \<le> of_nat n" using c n by simp
  then have "(of_nat len :: rat) \<le> of_nat n * of_nat k"
    using k by (simp add: pos_divide_le_eq)
  then have "(of_nat len :: rat) \<le> of_nat (n * k)" by simp
  then show "len \<le> n * k" by (simp only: of_nat_le_iff)
  have "of_nat n - 1 < ?x" using c n by simp
  then have "(of_nat n - 1) * of_nat k < (of_nat len :: rat)"
    using k by (simp add: pos_less_divide_eq)
  then have "(of_nat (n * k) :: rat) < of_nat (len + k)"
    by (simp add: algebra_simps)
  then show "n * k < len + k" by (simp only: of_nat_less_iff)
qed

section \<open>Lemmas: the example records\<close>

lemma plain_example_paths:
  "plain_path example_builtins ''name''"
  "plain_path example_builtins ''email''"
  "plain_path example_builtins ''address.city''"
  by (simp_all add: plain_path_def example_builtins_def split: json.splits)

lemma city_values:
  "getNestedValue rt (Json ann) ''address.city'' = Inr (Json (JStr ''Rome''))"
  "getNestedValue rt (Json bob) ''address.city'' = Inr (Json (JStr ''Oslo''))"
  "getNestedValue rt (Json cid) ''address.city'' = Inr (Json (JStr ''rome''))"
  by (simp_all add: ann_def bob_def cid_def getNestedValue_def access_def get_prop_def)

lemma email_values:
  "sort_val rt dan ''email'' = Inr (Json (JStr ''b@x.io''))"
  "sort_val rt fay ''email'' = Inr (Json (JStr ''a@x.io''))"
  "sort_val rt gus ''email'' = Inr (Json (JStr ''a@x.io''))"
  by (simp_all add: dan_def fay_def gus_def sort_val_def getNestedValue_def access_def get_prop_def
      toLowerCase_def lower_char_def)

lemma email_missing:
  "getNestedValue example_builtins (Json eve) ''email'' = Inr Undefined"
  by (simp add: eve_def getNestedValue_def access_def get_prop_def example_builtins_def)

lemma sort_city_ascending:
  "sort_stage example_builtins [ann, bob, cid] ''address.city'' Ascending = Inr [bob, ann, cid]"
  by code_simp

lemma sort_city_descending:
  "sort_stage example_builtins [ann, bob, cid] ''address.city'' Descending = Inr [ann, cid, bob]"
  by code_simp

lemma sort_city_round_trip:
  "sort_stage example_builtins [bob, ann, cid] ''address.city'' Descending = Inr [ann, cid, bob]"
  "sort_stage example_builtins [ann, cid, bob] ''address.city'' Ascending = Inr [bob, ann, cid]"
  by code_simp+

section \<open>The claims\<close>

subsection \<open>C1: what the filter stage returns\<close>

text \<open>
  C1. With an empty search term the filter stage returns the collection unchanged. With
  a non-empty term, on records that have a string under \<^verbatim>\<open>name\<close> (the data model),
  it returns exactly the records whose name, in lower case, contains the term in lower case
  as a substring, in their order in the collection: the result is \<open>filter\<close> of that
  predicate.
\<close>

theorem filter_stage_postcondition:
  "filter_stage rt C [] = Inr C \<and>
   ((\<forall>u\<in>set C. has_name u) \<and> T \<noteq> [] \<longrightarrow>
      filter_stage rt C T = Inr (filter (name_contains T) C))"
proof (intro conjI impI)
  show "filter_stage rt C [] = Inr C"
    by (simp add: filter_stage_def)
  assume "(\<forall>u\<in>set C. has_name u) \<and> T \<noteq> []"
  then show "filter_stage rt C T = Inr (filter (name_contains T) C)"
    using filter_stage_names [of C T rt] by blast
qed

text \<open>The scenario of the specification: Bob, alice and Carol, searched for "a".\<close>

theorem filter_stage_postcondition_witness:
  "filter_stage example_builtins
     [JObj [(''name'', JStr ''Bob'')], JObj [(''name'', JStr ''alice'')],
      JObj [(''name'', JStr ''Carol'')]] ''a''
     = Inr [JObj [(''name'', JStr ''alice'')], JObj [(''name'', JStr ''Carol'')]]
   \<and> filter (name_contains ''a'')
       [JObj [(''name'', JStr ''Bob'')], JObj [(''name'', JStr ''alice'')],
        JObj [(''name'', JStr ''Carol'')]]
     = [JObj [(''name'', JStr ''alice'')], JObj [(''name'', JStr ''Carol'')]]"
proof -
  let ?C = "[JObj [(''name'', JStr ''Bob'')], JObj [(''name'', JStr ''alice'')],
             JObj [(''name'', JStr ''Carol'')]]"
  have names: "\<forall>u\<in>set ?C. has_name u"
    by (simp add: has_name_def)
  have ne: "''a'' \<noteq> []" by simp
  have run: "filter_stage example_builtins ?C ''a''
               = Inr [JObj [(''name'', JStr ''alice'')], JObj [(''name'', JStr ''Carol'')]]"
    by code_simp
  have "filter_stage example_builtins ?C ''a'' = Inr (filter (name_contains ''a'') ?C)"
    using filter_stage_postcondition [of example_builtins ?C "''a''"] names ne by simp
  with run show ?thesis by simp
qed

subsection \<open>C2: stability and direction of the sort\<close>

text \<open>
  The specification speaks of every filtered collection. When some records lack the sort value
  and others have it, a record without it compares equal to all the others (C5) and the
  comparator is not consistent. Dan (email "b@x.io"), Eve (no email) and Fay (email
  "a@x.io"), sorted by email ascending, stay as they are, Dan before Fay, although the
  email of Fay is the smaller one. No other order would do: Eve compares equal to
  everyone, so stability pins every record to its place, and no rearrangement of the three
  is both stable and non-decreasing.
\<close>

theorem sort_stage_missing_value_counterexample:
  "sort_stage example_builtins [dan, eve, fay] ''email'' Ascending = Inr [dan, eve, fay]
   \<and> js_lt example_builtins (key_of example_builtins fay ''email'')
        (key_of example_builtins dan ''email'') = Inr True
   \<and> \<not> (\<exists>ys. mset ys = mset [dan, eve, fay]
           \<and> (\<forall>k\<in>set [dan, eve, fay].
                filter (\<lambda>u. cmp_of example_builtins ''email'' Ascending k u = 0) ys
                  = filter (\<lambda>u. cmp_of example_builtins ''email'' Ascending k u = 0) [dan, eve, fay])
           \<and> sorted_wrt (\<lambda>a b. js_lt example_builtins (key_of example_builtins b ''email'')
                                  (key_of example_builtins a ''email'') = Inr False) ys)"
proof (intro conjI notI)
  let ?rt = example_builtins
  show "sort_stage ?rt [dan, eve, fay] ''email'' Ascending = Inr [dan, eve, fay]"
    by code_simp
  show lt: "js_lt ?rt (key_of ?rt fay ''email'') (key_of ?rt dan ''email'') = Inr True"
    by (simp add: key_of_def email_values js_lt_strings)
  assume "\<exists>ys. mset ys = mset [dan, eve, fay]
           \<and> (\<forall>k\<in>set [dan, eve, fay].
                filter (\<lambda>u. cmp_of ?rt ''email'' Ascending k u = 0) ys
                  = filter (\<lambda>u. cmp_of ?rt ''email'' Ascending k u = 0) [dan, eve, fay])
           \<and> sorted_wrt (\<lambda>a b. js_lt ?rt (key_of ?rt b ''email'') (key_of ?rt a ''email'') = Inr False) ys"
  then obtain ys where
    ms: "mset ys = mset [dan, eve, fay]"
    and st: "filter (\<lambda>u. cmp_of ?rt ''email'' Ascending eve u = 0) ys
           = filter (\<lambda>u. cmp_of ?rt ''email'' Ascending eve u = 0) [dan, eve, fay]"
    and srt: "sorted_wrt (\<lambda>a b. js_lt ?rt (key_of ?rt b ''email'') (key_of ?rt a ''email'') = Inr False) ys"
    by auto
  have m: "sort_val ?rt eve ''email'' = Inr Undefined"
    using email_missing by (rule key_of_undefined)
  have z: "cmp_of ?rt ''email'' Ascending eve u = 0" if "u \<in> set [dan, eve, fay]" for u
  proof -
    have "\<exists>v. sort_val ?rt u ''email'' = Inr v \<and> toPrimitive ?rt v = Inr v"
      using that m email_values [of ?rt] by (auto simp add: toPrimitive_primitive)
    then show ?thesis
      using comparator_undefined [OF m, of u _ _ _ Ascending]
      by (auto simp add: cmp_of_def toPrimitive_primitive)
  qed
  have "set ys = set [dan, eve, fay]"
    using ms by (rule mset_eq_setD)
  then have "\<forall>u\<in>set ys. cmp_of ?rt ''email'' Ascending eve u = 0"
    using z by blast
  then have "filter (\<lambda>u. cmp_of ?rt ''email'' Ascending eve u = 0) ys = ys"
    by (simp only: filter_id_conv)
  with st have "ys = [dan, eve, fay]" using z by simp
  with srt lt show False by simp
qed

text \<open>
  C2, amended. When the comparator returns on the collection and is consistent on it, the
  sort returns a rearrangement of the collection in which the records that compare equal to
  any given record stand in their input order, whatever the direction; ascending, no record
  is followed by one with a smaller sort value, and descending, by none with a greater one.
  The descending comparator is the ascending one negated, pair by pair, and throws where
  the ascending one does. The comparator returns and is consistent when the sort field
  resolves to a string on every record (the fields of the data model), and when it
  resolves to \<^verbatim>\<open>undefined\<close> on every record.
\<close>

theorem sort_stage_stable:
  "(col \<noteq> [] \<and> returns_on (comparator rt col dir) users
      \<and> consistent_on (cmp_of rt col dir) users \<longrightarrow>
      (\<exists>sorted. sort_stage rt users col dir = Inr sorted
         \<and> mset sorted = mset users
         \<and> (\<forall>k\<in>set users. filter (\<lambda>u. cmp_of rt col dir k u = 0) sorted
                             = filter (\<lambda>u. cmp_of rt col dir k u = 0) users)
         \<and> (dir = Ascending \<longrightarrow>
               sorted_wrt (\<lambda>a b. js_lt rt (key_of rt b col) (key_of rt a col) = Inr False) sorted)
         \<and> (dir = Descending \<longrightarrow>
               sorted_wrt (\<lambda>a b. js_lt rt (key_of rt a col) (key_of rt b col) = Inr False) sorted)))
   \<and> comparator rt col Descending a b = map_sum id uminus (comparator rt col Ascending a b)
   \<and> ((\<forall>u\<in>set users. \<exists>s. getNestedValue rt (Json u) col = Inr (Json (JStr s))) \<longrightarrow>
        returns_on (comparator rt col dir) users \<and> consistent_on (cmp_of rt col dir) users)
   \<and> ((\<forall>u\<in>set users. getNestedValue rt (Json u) col = Inr Undefined) \<longrightarrow>
        returns_on (comparator rt col dir) users \<and> consistent_on (cmp_of rt col dir) users)"
proof (intro conjI impI)
  assume h: "col \<noteq> [] \<and> returns_on (comparator rt col dir) users
      \<and> consistent_on (cmp_of rt col dir) users"
  then have cons: "consistent_on (cmp_of rt col dir) users"
    and ret: "returns_on (comparator rt col dir) users" by simp_all
  let ?s = "isort (cmp_of rt col dir) users"
  have run: "sort_stage rt users col dir = Inr ?s"
    using h by (simp add: sort_stage_isort)
  have set_s: "set ?s = set users" by (rule set_isort)
  have cons_s: "consistent_on (cmp_of rt col dir) ?s"
    using cons consistent_on_cong [OF set_s] by blast
  have ret_s: "returns_on (comparator rt col dir) ?s"
    using ret set_s by (simp add: returns_on_def)
  have srt: "sorted_wrt (\<lambda>a b. cmp_of rt col dir a b \<le> 0) ?s"
    using cons by (rule sorted_isort)
  have asc: "sorted_wrt (\<lambda>a b. js_lt rt (key_of rt b col) (key_of rt a col) = Inr False) ?s"
    if "dir = Ascending"
  proof (rule sorted_wrt_mono_rel [OF _ srt])
    fix x y assume "x \<in> set ?s" and "y \<in> set ?s" and "cmp_of rt col dir x y \<le> 0"
    then show "js_lt rt (key_of rt y col) (key_of rt x col) = Inr False"
      using cmp_ascending_le [of rt col ?s x y] cons_s ret_s that by simp
  qed
  have desc: "sorted_wrt (\<lambda>a b. js_lt rt (key_of rt a col) (key_of rt b col) = Inr False) ?s"
    if "dir = Descending"
  proof (rule sorted_wrt_mono_rel [OF _ srt])
    fix x y assume "x \<in> set ?s" and "y \<in> set ?s" and "cmp_of rt col dir x y \<le> 0"
    then show "js_lt rt (key_of rt x col) (key_of rt y col) = Inr False"
      using cmp_descending_le [of rt col ?s x y] ret_s that by simp
  qed
  have stab: "\<forall>k\<in>set users. filter (\<lambda>u. cmp_of rt col dir k u = 0) ?s
                             = filter (\<lambda>u. cmp_of rt col dir k u = 0) users"
    using filter_isort [OF cons] by blast
  show "\<exists>sorted. sort_stage rt users col dir = Inr sorted
         \<and> mset sorted = mset users
         \<and> (\<forall>k\<in>set users. filter (\<lambda>u. cmp_of rt col dir k u = 0) sorted
                             = filter (\<lambda>u. cmp_of rt col dir k u = 0) users)
         \<and> (dir = Ascending \<longrightarrow>
               sorted_wrt (\<lambda>a b. js_lt rt (key_of rt b col) (key_of rt a col) = Inr False) sorted)
         \<and> (dir = Descending \<longrightarrow>
               sorted_wrt (\<lambda>a b. js_lt rt (key_of rt a col) (key_of rt b col) = Inr False) sorted)"
    using run mset_isort [of "cmp_of rt col dir" users] stab asc desc by blast
next
  show "comparator rt col Descending a b = map_sum id uminus (comparator rt col Ascending a b)"
    by (rule comparator_direction)
next
  assume s: "\<forall>u\<in>set users. \<exists>s. getNestedValue rt (Json u) col = Inr (Json (JStr s))"
  show "returns_on (comparator rt col dir) users"
    using string_values_consistent [OF s] by simp
  show "consistent_on (cmp_of rt col dir) users"
    using string_values_consistent [OF s] by simp
next
  assume u: "\<forall>u\<in>set users. getNestedValue rt (Json u) col = Inr Undefined"
  show "returns_on (comparator rt col dir) users"
    using undefined_values_consistent [OF u] by simp
  show "consistent_on (cmp_of rt col dir) users"
    using undefined_values_consistent [OF u] by simp
qed

text \<open>
  Sorted by city, Ann (Rome) and Cid (rome) tie and keep their order in both directions, so
  the descending result is not the ascending one reversed.
\<close>

theorem sort_stage_stable_witness:
  "sort_stage example_builtins [ann, bob, cid] ''address.city'' Ascending = Inr [bob, ann, cid]
   \<and> sort_stage example_builtins [ann, bob, cid] ''address.city'' Descending = Inr [ann, cid, bob]
   \<and> filter (\<lambda>u. cmp_of example_builtins ''address.city'' Ascending ann u = 0) [bob, ann, cid]
       = filter (\<lambda>u. cmp_of example_builtins ''address.city'' Ascending ann u = 0) [ann, bob, cid]
   \<and> filter (\<lambda>u. cmp_of example_builtins ''address.city'' Descending ann u = 0) [ann, cid, bob]
       = filter (\<lambda>u. cmp_of example_builtins ''address.city'' Descending ann u = 0) [ann, bob, cid]
   \<and> [ann, cid, bob] \<noteq> rev [bob, ann, cid]"
proof -
  let ?rt = example_builtins and ?col = "''address.city''" and ?us = "[ann, bob, cid]"
  have col: "?col \<noteq> []" by simp
  have strings: "\<forall>u\<in>set ?us. \<exists>s. getNestedValue ?rt (Json u) ?col = Inr (Json (JStr s))"
    by (simp add: city_values)
  have stable: "filter (\<lambda>u. cmp_of ?rt ?col dir ann u = 0) sorted
                  = filter (\<lambda>u. cmp_of ?rt ?col dir ann u = 0) ?us"
    if "sort_stage ?rt ?us ?col dir = Inr sorted" for dir sorted
  proof -
    note t = sort_stage_stable [of ?col ?rt dir ?us ann ann]
    have "returns_on (comparator ?rt ?col dir) ?us \<and> consistent_on (cmp_of ?rt ?col dir) ?us"
      using t strings by blast
    then obtain s where "sort_stage ?rt ?us ?col dir = Inr s"
      and "\<forall>k\<in>set ?us. filter (\<lambda>u. cmp_of ?rt ?col dir k u = 0) s
                             = filter (\<lambda>u. cmp_of ?rt ?col dir k u = 0) ?us"
      using t col by blast
    with that show ?thesis by simp
  qed
  have "ann \<noteq> cid" by (simp add: ann_def cid_def)
  then have "[ann, cid, bob] \<noteq> rev [bob, ann, cid]" by simp
  then show ?thesis
    using stable [OF sort_city_ascending] stable [OF sort_city_descending]
      sort_city_ascending sort_city_descending by simp
qed

subsection \<open>C3: the pages cover the sequence\<close>

text \<open>
  C3. For a positive page size the reported number of pages is the ceiling of the length
  over the page size, a natural number \<open>n\<close>; the pages \<open>0\<close> to \<open>n - 1\<close>, one after the
  other, are the whole sequence, so nothing is left out or shown twice, and none of them is
  empty. For 12 rows and a page size of 5 there are 3 pages, page 0 with 5 rows and
  page 2 with 2 rows.
\<close>

theorem pagination_covers:
  assumes "0 < pageSize"
  shows "\<exists>n. numberOfPages (length xs) pageSize = Fin (of_nat n)
       \<and> int n = \<lceil>(of_nat (length xs) :: rat) / of_int pageSize\<rceil>
       \<and> concat (map (\<lambda>p. paginatedUsers (int p) pageSize xs) [0..<n]) = xs
       \<and> (\<forall>p<n. paginatedUsers (int p) pageSize xs \<noteq> [])
       \<and> (length xs = 12 \<and> pageSize = 5 \<longrightarrow>
            n = 3 \<and> length (paginatedUsers 0 pageSize xs) = 5
                  \<and> length (paginatedUsers 2 pageSize xs) = 2)"
proof -
  obtain k where k: "pageSize = int k" and kpos: "0 < k"
    using assms by (metis nat_0_less_mult_iff nat_eq_iff2 zero_less_nat_eq less_imp_le mult.right_neutral)
  define n where "n = nat \<lceil>(of_nat (length xs) :: rat) / of_nat k\<rceil>"
  note b = pages_bounds [OF kpos n_def]
  have c: "int n = \<lceil>(of_nat (length xs) :: rat) / of_int pageSize\<rceil>"
    using b(1) k by simp
  have 1: "numberOfPages (length xs) pageSize = Fin (of_nat n)"
    using kpos k c by (simp add: numberOfPages_def)
  have 2: "concat (map (\<lambda>p. paginatedUsers (int p) pageSize xs) [0..<n]) = xs"
    using b(2) by (simp add: k paginatedUsers_nat concat_pages)
  have 3: "paginatedUsers (int p) pageSize xs \<noteq> []" if "p < n" for p
  proof -
    have "Suc p \<le> n" using that by simp
    then have "Suc p * k \<le> n * k" by (rule mult_le_mono1)
    then have "p * k < length xs" using b(3) by simp
    then show ?thesis using kpos by (simp add: k paginatedUsers_nat)
  qed
  have 4: "n = 3 \<and> length (paginatedUsers 0 pageSize xs) = 5
                  \<and> length (paginatedUsers 2 pageSize xs) = 2"
    if "length xs = 12 \<and> pageSize = 5"
  proof -
    have k5: "k = 5" using that k by simp
    have "n = 3" using b(2,3) that k5 by simp
    moreover have "paginatedUsers 0 pageSize xs = paginatedUsers (int 0) (int k) xs"
      "paginatedUsers 2 pageSize xs = paginatedUsers (int 2) (int k) xs"
      using k by simp_all
    ultimately show ?thesis using that k5 by (simp only: paginatedUsers_nat) simp
  qed
  show ?thesis
    using 1 c 2 3 4 by blast
qed

text \<open>Twelve rows, five to a page.\<close>

theorem pagination_covers_witness:
  "(0 :: int) < 5
   \<and> numberOfPages (length [0..<12]) 5 = Fin 3
   \<and> concat (map (\<lambda>p. paginatedUsers (int p) 5 [0..<12]) [0..<3]) = [0..<12]
   \<and> length (paginatedUsers 0 5 [0..<12]) = 5
   \<and> length (paginatedUsers 2 5 [0..<12]) = 2"
proof -
  have pos: "(0 :: int) < 5" by simp
  obtain n where n: "numberOfPages (length [0..<12]) 5 = Fin (of_nat n)"
    "concat (map (\<lambda>p. paginatedUsers (int p) 5 [0..<12]) [0..<n]) = [0..<12]"
    "length [0..<12] = 12 \<and> (5 :: int) = 5 \<longrightarrow>
       n = 3 \<and> length (paginatedUsers 0 5 [0..<12]) = 5 \<and> length (paginatedUsers 2 5 [0..<12]) = 2"
    using pagination_covers [OF pos, of "[0..<12]"] by blast
  have len: "length [0..<12] = 12" by simp
  from n(3) len have "n = 3" and "length (paginatedUsers 0 5 [0..<12]) = 5"
    and "length (paginatedUsers 2 5 [0..<12]) = 2"
    by simp_all
  with n(1,2) pos show ?thesis by simp
qed

subsection \<open>C4: the pipeline and its errors\<close>

lemma sort_val_plain:
  assumes "plain_path rt col"
  shows "sort_val rt a col = Inr (key_of rt a col)"
proof -
  obtain v where "getNestedValue rt (Json a) col = Inr v"
    using getNestedValue_plain [OF assms] by blast
  then show ?thesis
    by (simp add: key_of_def sort_val_eq)
qed

lemma primitive_keys_return:
  assumes plain: "plain_path rt col" and prim: "\<forall>u\<in>set users. \<not> is_object (key_of rt u col)"
  shows "returns_on (comparator rt col dir) users"
  unfolding returns_on_def
proof (intro ballI)
  fix a b assume a: "a \<in> set users" and b: "b \<in> set users"
  let ?va = "key_of rt a col" and ?vb = "key_of rt b col"
  have pa: "toPrimitive rt ?va = Inr ?va" and pb: "toPrimitive rt ?vb = Inr ?vb"
    using prim a b by (simp_all add: toPrimitive_primitive)
  have "js_lt rt ?va ?vb = Inr (prim_lt rt ?va ?vb)" and "js_gt rt ?va ?vb = Inr (prim_lt rt ?vb ?va)"
    using pa pb by (simp_all add: js_lt_def js_gt_def)
  then show "\<not> isl (comparator rt col dir a b)"
    using comparator_values [OF sort_val_plain [OF plain] sort_val_plain [OF plain]] by simp
qed

text \<open>
  The specification says that the pipeline does not fail on unknown sort fields. It does on
  a sort field that leads to an accessor that throws: with two records to compare,
  sorting by \<^verbatim>\<open>constructor.caller\<close> reads \<^verbatim>\<open>caller\<close> of the function
  \<^verbatim>\<open>Object\<close>, which throws a TypeError, and no row is computed.
\<close>

theorem unknown_sort_field_counterexample:
  "processedUsers example_builtins [ann, bob] [] ''constructor.caller'' Ascending = Inl TypeError
   \<and> visible_rows example_builtins [ann, bob]
        \<lparr>searchQuery = [], sortColumn = ''constructor.caller'', sortDirection = Ascending,
         page = 0, itemsPerPage = 5\<rparr> = Inl TypeError"
  by code_simp

text \<open>
  C4, amended. On an empty search term, or records that all have a string under
  \<^verbatim>\<open>name\<close>, and on an empty sort field, or a sort field on which the comparator returns
  for the records, the pipeline returns: filtering and sorting give a sequence and the page
  is a list of rows, empty when \<open>page * itemsPerPage\<close> is at least the filtered length.
  The comparator returns when no segment of the sort field names an inherited member and
  the sort values are primitives or missing, and when the sort field resolves to
  \<^verbatim>\<open>undefined\<close> on every record, as a field does that no record has. The empty
  collection gives the empty sequence and the empty search term keeps the collection.
\<close>

theorem pipeline_total:
  "((searchQuery st = [] \<or> (\<forall>u\<in>set users. has_name u))
      \<and> (sortColumn st = [] \<or> returns_on (comparator rt (sortColumn st) (sortDirection st)) users) \<longrightarrow>
      (\<exists>processed rows.
          processedUsers rt users (searchQuery st) (sortColumn st) (sortDirection st) = Inr processed
        \<and> visible_rows rt users st = Inr rows
        \<and> (int (length processed) \<le> page st * itemsPerPage st \<longrightarrow> rows = [])))
   \<and> (plain_path rt col \<and> (\<forall>u\<in>set users. \<not> is_object (key_of rt u col)) \<longrightarrow>
        returns_on (comparator rt col dir) users)
   \<and> ((\<forall>u\<in>set users. getNestedValue rt (Json u) col = Inr Undefined) \<longrightarrow>
        returns_on (comparator rt col dir) users)
   \<and> processedUsers rt [] q col dir = Inr []
   \<and> filter_stage rt users [] = Inr users"
proof (intro conjI impI)
  assume h: "(searchQuery st = [] \<or> (\<forall>u\<in>set users. has_name u))
      \<and> (sortColumn st = [] \<or> returns_on (comparator rt (sortColumn st) (sortDirection st)) users)"
  then obtain filtered where f: "filter_stage rt users (searchQuery st) = Inr filtered"
    and sub: "set filtered \<subseteq> set users"
    using filter_stage_total [of "searchQuery st" users rt] by blast
  have "sortColumn st = [] \<or> returns_on (comparator rt (sortColumn st) (sortDirection st)) filtered"
    using h sub returns_on_subset by blast
  then obtain processed where p: "sort_stage rt filtered (sortColumn st) (sortDirection st) = Inr processed"
    using sort_stage_returns [of "sortColumn st" filtered rt "sortDirection st"] by blast
  have pu: "processedUsers rt users (searchQuery st) (sortColumn st) (sortDirection st) = Inr processed"
    using f p by (simp add: processedUsers_def)
  let ?rows = "paginatedUsers (page st) (itemsPerPage st) processed"
  have "visible_rows rt users st = Inr ?rows"
    using pu by (simp add: visible_rows_def)
  moreover have "?rows = []" if "int (length processed) \<le> page st * itemsPerPage st"
    using that by (simp add: paginatedUsers_def Let_def js_slice_beyond)
  ultimately show "\<exists>processed rows.
          processedUsers rt users (searchQuery st) (sortColumn st) (sortDirection st) = Inr processed
        \<and> visible_rows rt users st = Inr rows
        \<and> (int (length processed) \<le> page st * itemsPerPage st \<longrightarrow> rows = [])"
    using pu by blast
next
  assume "plain_path rt col \<and> (\<forall>u\<in>set users. \<not> is_object (key_of rt u col))"
  then show "returns_on (comparator rt col dir) users"
    using primitive_keys_return by blast
next
  assume "\<forall>u\<in>set users. getNestedValue rt (Json u) col = Inr Undefined"
  then show "returns_on (comparator rt col dir) users"
    using undefined_values_consistent by blast
next
  show "processedUsers rt [] q col dir = Inr []"
    by (simp add: processedUsers_def filter_stage_def sort_stage_def js_sort_def)
  show "filter_stage rt users [] = Inr users"
    by (simp add: filter_stage_def)
qed

text \<open>Three users searched for "a", sorted by a field no record has, on page 3.\<close>

theorem pipeline_total_witness:
  "visible_rows example_builtins
     [JObj [(''name'', JStr ''Bob'')], JObj [(''name'', JStr ''alice'')],
      JObj [(''name'', JStr ''Carol'')]]
     \<lparr>searchQuery = ''a'', sortColumn = ''phone'', sortDirection = Descending,
      page = 3, itemsPerPage = 5\<rparr> = Inr []"
proof -
  let ?users = "[JObj [(''name'', JStr ''Bob'')], JObj [(''name'', JStr ''alice'')],
      JObj [(''name'', JStr ''Carol'')]]"
  let ?st = "\<lparr>searchQuery = ''a'', sortColumn = ''phone'', sortDirection = Descending,
      page = 3, itemsPerPage = 5\<rparr>"
  note t = pipeline_total [of ?st ?users example_builtins "''phone''" Descending]
  have names: "\<forall>u\<in>set ?users. has_name u"
    by (simp add: has_name_def)
  have missing: "\<forall>u\<in>set ?users. getNestedValue example_builtins (Json u) ''phone'' = Inr Undefined"
    by (simp add: getNestedValue_def access_def get_prop_def example_builtins_def)
  have ret: "returns_on (comparator example_builtins ''phone'' Descending) ?users"
    using t missing by blast
  have dom: "(searchQuery ?st = [] \<or> (\<forall>u\<in>set ?users. has_name u))
      \<and> (sortColumn ?st = []
          \<or> returns_on (comparator example_builtins (sortColumn ?st) (sortDirection ?st)) ?users)"
    using names ret by simp
  have "\<exists>processed rows.
          processedUsers example_builtins ?users (searchQuery ?st) (sortColumn ?st) (sortDirection ?st)
            = Inr processed
        \<and> visible_rows example_builtins ?users ?st = Inr rows
        \<and> (int (length processed) \<le> page ?st * itemsPerPage ?st \<longrightarrow> rows = [])"
    using t dom by blast
  then obtain processed rows where
    "processedUsers example_builtins ?users ''a'' ''phone'' Descending = Inr processed"
    and "visible_rows example_builtins ?users ?st = Inr rows"
    and "int (length processed) \<le> 15 \<longrightarrow> rows = []"
    by auto
  moreover have "processedUsers example_builtins ?users ''a'' ''phone'' Descending
               = Inr [JObj [(''name'', JStr ''alice'')], JObj [(''name'', JStr ''Carol'')]]"
    by code_simp
  ultimately show ?thesis by auto
qed

subsection \<open>C5: a missing sort value compares equal to everything\<close>

text \<open>
  The specification speaks of every pair of records of which one lacks the sort value. The
  comparator converts both values to primitives before it compares them, and the conversion
  of an object that has an own property \<^verbatim>\<open>toString\<close> which is no function throws:
  Eve, without email, against a record whose email is \<^verbatim>\<open>{"toString": 0}\<close> gives a
  TypeError, not 0.
\<close>

theorem comparator_missing_throws_counterexample:
  "getNestedValue example_builtins (Json eve) ''email'' = Inr Undefined
   \<and> comparator example_builtins ''email'' Ascending eve
        (JObj [(''name'', JStr ''Odd''), (''email'', JObj [(''toString'', JNum (Fin 0))])])
       = Inl TypeError"
  by code_simp

text \<open>
  C5, amended. When the sort path of at least one of two records resolves to
  \<^verbatim>\<open>undefined\<close>, and the sort value of the other is read and converted to a
  primitive without an error, as every string, number, boolean and \<^verbatim>\<open>null\<close> is, the
  comparator returns 0 in either direction: neither \<^verbatim>\<open><\<close> nor \<^verbatim>\<open>>\<close> holds. So a
  record without the value is equal to a record named "a" and to a record named "b", which
  are not equal to each other: the comparator is not consistent on the three, and the
  order it induces is not total.
\<close>

theorem comparator_missing_equal:
  "((getNestedValue rt (Json a) col = Inr Undefined
       \<and> sort_val rt b col = Inr vb \<and> toPrimitive rt vb = Inr pb)
    \<or> (getNestedValue rt (Json b) col = Inr Undefined
       \<and> sort_val rt a col = Inr va \<and> toPrimitive rt va = Inr pa) \<longrightarrow>
      comparator rt col dir a b = Inr 0)
   \<and> (\<not> is_object v \<longrightarrow> toPrimitive rt v = Inr v)
   \<and> (plain_path rt ''name'' \<longrightarrow>
        comparator rt ''name'' Ascending (JObj [(''name'', JStr ''a'')]) (JObj []) = Inr 0
        \<and> comparator rt ''name'' Ascending (JObj []) (JObj [(''name'', JStr ''b'')]) = Inr 0
        \<and> comparator rt ''name'' Ascending (JObj [(''name'', JStr ''a'')]) (JObj [(''name'', JStr ''b'')])
            = Inr (- 1)
        \<and> \<not> consistent_on (cmp_of rt ''name'' Ascending)
              [JObj [(''name'', JStr ''a'')], JObj [], JObj [(''name'', JStr ''b'')]])"
proof (intro conjI impI)
  assume "(getNestedValue rt (Json a) col = Inr Undefined
       \<and> sort_val rt b col = Inr vb \<and> toPrimitive rt vb = Inr pb)
    \<or> (getNestedValue rt (Json b) col = Inr Undefined
       \<and> sort_val rt a col = Inr va \<and> toPrimitive rt va = Inr pa)"
  then show "comparator rt col dir a b = Inr 0"
  proof
    assume h: "getNestedValue rt (Json a) col = Inr Undefined
       \<and> sort_val rt b col = Inr vb \<and> toPrimitive rt vb = Inr pb"
    then have "sort_val rt a col = Inr Undefined" using key_of_undefined by blast
    then show ?thesis
      using h comparator_undefined [of rt a col Undefined b vb Undefined pb dir]
      by (simp add: toPrimitive_primitive)
  next
    assume h: "getNestedValue rt (Json b) col = Inr Undefined
       \<and> sort_val rt a col = Inr va \<and> toPrimitive rt va = Inr pa"
    then have "sort_val rt b col = Inr Undefined" using key_of_undefined by blast
    then show ?thesis
      using h comparator_undefined [of rt a col va b Undefined pa Undefined dir]
      by (simp add: toPrimitive_primitive)
  qed
next
  assume "\<not> is_object v"
  then show "toPrimitive rt v = Inr v" by (rule toPrimitive_primitive)
next
  let ?a = "JObj [(''name'', JStr ''a'')]" and ?m = "JObj []" and ?b = "JObj [(''name'', JStr ''b'')]"
  assume plain: "plain_path rt ''name''"
  then have none: "Inherited rt (Json ?m) ''name'' = None"
    by (simp add: plain_path_def)
  have ka: "sort_val rt ?a ''name'' = Inr (Json (JStr ''a''))"
    and kb: "sort_val rt ?b ''name'' = Inr (Json (JStr ''b''))"
    by (simp_all add: sort_val_def getNestedValue_def access_def get_prop_def
        toLowerCase_def lower_char_def)
  have km: "sort_val rt ?m ''name'' = Inr Undefined"
    using none by (simp add: sort_val_def getNestedValue_def access_def get_prop_def)
  have p: "toPrimitive rt (Json (JStr s)) = Inr (Json (JStr s))" for s
    by (simp add: toPrimitive_primitive)
  show am: "comparator rt ''name'' Ascending ?a ?m = Inr 0"
    using comparator_undefined [OF ka km _ p, of Undefined Ascending]
    by (simp add: toPrimitive_primitive)
  show mb: "comparator rt ''name'' Ascending ?m ?b = Inr 0"
    using comparator_undefined [OF km kb _ _ p, of Undefined Ascending]
    by (simp add: toPrimitive_primitive)
  show ab: "comparator rt ''name'' Ascending ?a ?b = Inr (- 1)"
    by (simp add: comparator_strings [OF ka kb])
  have ba: "cmp_of rt ''name'' Ascending ?b ?a = 1"
    by (simp add: cmp_of_def comparator_strings [OF kb ka])
  have bm: "cmp_of rt ''name'' Ascending ?b ?m = 0"
    using comparator_undefined [OF kb km _ p, of Undefined Ascending]
    by (simp add: cmp_of_def toPrimitive_primitive)
  have ma: "cmp_of rt ''name'' Ascending ?m ?a = 0"
    using comparator_undefined [OF km ka _ _ p, of Undefined Ascending]
    by (simp add: cmp_of_def toPrimitive_primitive)
  show "\<not> consistent_on (cmp_of rt ''name'' Ascending) [?a, ?m, ?b]"
  proof
    assume c: "consistent_on (cmp_of rt ''name'' Ascending) [?a, ?m, ?b]"
    have "cmp_of rt ''name'' Ascending ?b ?a \<le> 0"
      using consistent_trans [OF c, of ?b ?m ?a] bm ma by simp
    with ba show False by simp
  qed
qed

text \<open>A record without an address against a record in Rome, sorted by city.\<close>

theorem comparator_missing_equal_witness:
  "getNestedValue example_builtins (Json (JObj [])) ''address.city'' = Inr Undefined
   \<and> comparator example_builtins ''address.city'' Descending (JObj [])
        (JObj [(''address'', JObj [(''city'', JStr ''Rome'')])]) = Inr 0
   \<and> comparator example_builtins ''name'' Ascending (JObj []) (JObj [(''name'', JStr ''b'')]) = Inr 0"
proof -
  let ?rome = "JObj [(''address'', JObj [(''city'', JStr ''Rome'')])]"
  note t = comparator_missing_equal [of example_builtins "JObj []" "''address.city''" ?rome
      "Json (JStr ''rome'')" "Json (JStr ''rome'')" _ _ Descending "Json (JStr ''rome'')"]
  have m: "getNestedValue example_builtins (Json (JObj [])) ''address.city'' = Inr Undefined"
    by (simp add: getNestedValue_def access_def get_prop_def example_builtins_def)
  have v: "sort_val example_builtins ?rome ''address.city'' = Inr (Json (JStr ''rome''))"
    by code_simp
  have p: "toPrimitive example_builtins (Json (JStr ''rome'')) = Inr (Json (JStr ''rome''))"
    using t by simp
  have "comparator example_builtins ''address.city'' Descending (JObj []) ?rome = Inr 0"
    using t m v p by blast
  moreover have "comparator example_builtins ''name'' Ascending (JObj []) (JObj [(''name'', JStr ''b'')]) = Inr 0"
    using t plain_example_paths(1) by blast
  ultimately show ?thesis using m by simp
qed

subsection \<open>C6: the page after a change of the page size\<close>

text \<open>
  C6. \<^verbatim>\<open>handleSearch\<close> resets the page to 0. \<^verbatim>\<open>onItemsPerPageChange\<close> is
  \<^verbatim>\<open>setItemsPerPage\<close> alone and leaves the page as it was: with twelve users on page 2
  of pages of five, choosing fifteen rows a page leaves the page at 2 although there is
  one page, and no row is shown.
\<close>

theorem onItemsPerPageChange_keeps_page:
  "page (onItemsPerPageChange n st) = page st
   \<and> page (handleSearch query st) = 0
   \<and> page (onItemsPerPageChange 15 (onPageChange 2 initial_state)) = 2
   \<and> total_pages example_builtins twelve_users (onItemsPerPageChange 15 (onPageChange 2 initial_state))
       = Inr (Fin 1)
   \<and> visible_rows example_builtins twelve_users (onItemsPerPageChange 15 (onPageChange 2 initial_state))
       = Inr []"
proof -
  have "\<forall>u\<in>set twelve_users. \<exists>s. getNestedValue example_builtins (Json u) ''name'' = Inr (Json (JStr s))"
    by (auto simp add: twelve_users_def getNestedValue_def access_def get_prop_def)
  then have "returns_on (comparator example_builtins ''name'' Ascending) twelve_users"
    using string_values_consistent by blast
  then obtain processed where "sort_stage example_builtins twelve_users ''name'' Ascending = Inr processed"
    and "mset processed = mset twelve_users"
    using sort_stage_returns [of "''name''" twelve_users example_builtins Ascending] by blast
  moreover have "length processed = 12" if "mset processed = mset twelve_users"
    using that mset_eq_length [of processed twelve_users] by (simp add: twelve_users_def)
  ultimately have "\<exists>processed. processedUsers example_builtins twelve_users [] ''name'' Ascending = Inr processed
          \<and> length processed = 12"
    by (simp add: processedUsers_def filter_stage_def)
  moreover have "numberOfPages 12 15 = Fin 1"
    by code_simp
  ultimately show ?thesis
    by (auto simp add: onItemsPerPageChange_def onPageChange_def handleSearch_def initial_state_def
        total_pages_def visible_rows_def paginatedUsers_def js_slice_beyond)
qed

subsection \<open>C7: the contract of the nested-path lookup\<close>

text \<open>
  The specification says that the lookup never fails and that it returns the missing result
  when an intermediate value is not a traversable structure. Neither holds for every path.
  \<^verbatim>\<open>acc && acc[part]\<close> hands a falsy value on, so \<^verbatim>\<open>address.city\<close> on a record
  whose address is \<^verbatim>\<open>false\<close> is \<^verbatim>\<open>false\<close>. And \<^verbatim>\<open>acc[part]\<close> reads
  inherited members too: \<^verbatim>\<open>constructor\<close> on a record is the function
  \<^verbatim>\<open>Object\<close>, and reading \<^verbatim>\<open>caller\<close> from it throws a TypeError.
\<close>

theorem getNestedValue_contract_counterexample:
  "getNestedValue example_builtins (Json (JObj [(''address'', JBool False)])) ''address.city''
     = Inr (Json (JBool False))
   \<and> getNestedValue example_builtins (Json ann) ''constructor'' = Inr (Function ''Object'')
   \<and> getNestedValue example_builtins (Json ann) ''constructor.caller'' = Inl TypeError"
  by code_simp

text \<open>
  C7, amended. The lookup splits the path at the dots (the segments hold no dot and, joined
  by dots, are the path) and walks the segments from the record with
  \<^verbatim>\<open>acc && acc[part]\<close>. When no segment names an inherited member, it does not throw,
  and when the value reached before a further segment is \<^verbatim>\<open>true\<close> or a number other
  than 0 and \<^verbatim>\<open>NaN\<close>, the result is \<^verbatim>\<open>undefined\<close>. On every path, when the value
  reached before a further segment is \<^verbatim>\<open>undefined\<close> (the segment is absent), the
  result is \<^verbatim>\<open>undefined\<close>, and when it is falsy (\<^verbatim>\<open>null\<close>, \<^verbatim>\<open>false\<close>, 0,
  \<^verbatim>\<open>NaN\<close>, the empty string), the result is that value.
\<close>

theorem getNestedValue_contract:
  "js_join (CHR ''.'') (js_split (CHR ''.'') path) = path
   \<and> (\<forall>s\<in>set (js_split (CHR ''.'') path). CHR ''.'' \<notin> set s)
   \<and> getNestedValue rt (Json obj) path = reduce (access rt) (js_split (CHR ''.'') path) (Json obj)
   \<and> (plain_path rt path \<longrightarrow> (\<exists>v. getNestedValue rt (Json obj) path = Inr v))
   \<and> (\<forall>ps q qs v. js_split (CHR ''.'') path = ps @ q # qs
          \<and> reduce (access rt) ps (Json obj) = Inr v \<longrightarrow>
        (v = Undefined \<longrightarrow> getNestedValue rt (Json obj) path = Inr Undefined)
        \<and> (plain_path rt path
             \<and> (v = Json (JBool True) \<or> (\<exists>n. v = Json (JNum n) \<and> truthy v)) \<longrightarrow>
             getNestedValue rt (Json obj) path = Inr Undefined)
        \<and> (\<not> truthy v \<longrightarrow> getNestedValue rt (Json obj) path = Inr v))"
proof (intro conjI allI impI ballI)
  show "js_join (CHR ''.'') (js_split (CHR ''.'') path) = path"
    by (rule js_join_split)
  show "getNestedValue rt (Json obj) path = reduce (access rt) (js_split (CHR ''.'') path) (Json obj)"
    by (simp add: getNestedValue_def)
next
  fix s assume "s \<in> set (js_split (CHR ''.'') path)"
  then show "CHR ''.'' \<notin> set s" by (rule js_split_no_sep)
next
  assume "plain_path rt path"
  then show "\<exists>v. getNestedValue rt (Json obj) path = Inr v"
    using getNestedValue_plain by blast
next
  fix ps q qs v
  assume h: "js_split (CHR ''.'') path = ps @ q # qs \<and> reduce (access rt) ps (Json obj) = Inr v"
  {
    assume "v = Undefined"
    then show "getNestedValue rt (Json obj) path = Inr Undefined"
      using h intermediate_falsy [of path ps "q # qs" rt "Json obj" v] by simp
  }
  {
    assume p: "plain_path rt path
             \<and> (v = Json (JBool True) \<or> (\<exists>n. v = Json (JNum n) \<and> truthy v))"
    then have "\<forall>j. Inherited rt (Json j) q = None"
      using h by (simp add: plain_path_def)
    then have "Inherited rt v q = None" using p by auto
    then show "getNestedValue rt (Json obj) path = Inr Undefined"
      using h p intermediate_primitive [of path ps q qs rt "Json obj" v] by blast
  }
  {
    assume "\<not> truthy v"
    then show "getNestedValue rt (Json obj) path = Inr v"
      using h intermediate_falsy [of path ps "q # qs" rt "Json obj" v] by simp
  }
qed

text \<open>A record without \<^verbatim>\<open>address.geo\<close>, and a record whose address is \<^verbatim>\<open>null\<close>.\<close>

theorem getNestedValue_contract_witness:
  "getNestedValue example_builtins (Json ann) ''address.geo.lat'' = Inr Undefined
   \<and> getNestedValue example_builtins (Json (JObj [(''address'', JNull)])) ''address.city''
       = Inr (Json JNull)
   \<and> (\<exists>v. getNestedValue example_builtins (Json bob) ''address.city'' = Inr v)"
proof -
  let ?rt = example_builtins
  let ?n = "JObj [(''address'', JNull)]"
  have s1: "js_split (CHR ''.'') ''address.geo.lat'' = [''address'', ''geo''] @ ''lat'' # []"
    by simp
  have r1: "reduce (access ?rt) [''address'', ''geo''] (Json ann) = Inr Undefined"
    by code_simp
  have s2: "js_split (CHR ''.'') ''address.city'' = [''address''] @ ''city'' # []"
    by simp
  have r2: "reduce (access ?rt) [''address''] (Json ?n) = Inr (Json JNull)"
    by code_simp
  have f: "\<not> truthy (Json JNull)" by simp
  have "getNestedValue ?rt (Json ann) ''address.geo.lat'' = Inr Undefined"
    using getNestedValue_contract [of "''address.geo.lat''" ?rt ann] s1 r1 by blast
  moreover have "getNestedValue ?rt (Json ?n) ''address.city'' = Inr (Json JNull)"
    using getNestedValue_contract [of "''address.city''" ?rt ?n] s2 r2 f by blast
  moreover have "\<exists>v. getNestedValue ?rt (Json bob) ''address.city'' = Inr v"
    using getNestedValue_contract [of "''address.city''" ?rt bob] plain_example_paths(3) by blast
  ultimately show ?thesis by simp
qed

subsection \<open>C8: ascending, descending, ascending again\<close>

text \<open>
  The specification speaks of every collection and sort field. With a sort value missing on some
  records only, the round trip does not always come back. Fay ("a@x.io"), Dan ("b@x.io"),
  Eve (no email) and Gus ("a@x.io"), sorted by email, are in ascending order as they
  stand, since each record is not smaller than the one before it; descending gives Dan,
  Fay, Eve, Gus, and ascending again gives Fay, Gus, Dan, Eve.
\<close>

theorem direction_round_trip_counterexample:
  "sort_stage example_builtins [fay, dan, eve, gus] ''email'' Ascending = Inr [fay, dan, eve, gus]
   \<and> sort_stage example_builtins [fay, dan, eve, gus] ''email'' Descending = Inr [dan, fay, eve, gus]
   \<and> sort_stage example_builtins [dan, fay, eve, gus] ''email'' Ascending = Inr [fay, gus, dan, eve]
   \<and> [fay, gus, dan, eve] \<noteq> [fay, dan, eve, gus]"
proof -
  have "sort_stage example_builtins [fay, dan, eve, gus] ''email'' Ascending = Inr [fay, dan, eve, gus]"
    and "sort_stage example_builtins [fay, dan, eve, gus] ''email'' Descending = Inr [dan, fay, eve, gus]"
    and "sort_stage example_builtins [dan, fay, eve, gus] ''email'' Ascending = Inr [fay, gus, dan, eve]"
    by code_simp+
  moreover have "gus \<noteq> dan" by (simp add: gus_def dan_def)
  ultimately show ?thesis by simp
qed

text \<open>
  C8, amended. When the comparator returns on the collection and is consistent on it, as it
  is when the sort field resolves to a string on every record, sorting ascending, then
  descending, then ascending again gives the ascending order back. In the view state,
  selecting the active column flips the direction, and selecting it twice restores the
  state.
\<close>

theorem direction_round_trip:
  "(returns_on (comparator rt col Ascending) C \<and> consistent_on (cmp_of rt col Ascending) C \<longrightarrow>
      (\<exists>asc desc. sort_stage rt C col Ascending = Inr asc
           \<and> sort_stage rt asc col Descending = Inr desc
           \<and> sort_stage rt desc col Ascending = Inr asc))
   \<and> ((\<forall>u\<in>set C. \<exists>s. getNestedValue rt (Json u) col = Inr (Json (JStr s))) \<longrightarrow>
        returns_on (comparator rt col Ascending) C \<and> consistent_on (cmp_of rt col Ascending) C)
   \<and> (sortColumn st = col \<longrightarrow>
        sortColumn (handleSort col st) = col
        \<and> sortDirection (handleSort col st) \<noteq> sortDirection st
        \<and> handleSort col (handleSort col st) = st)"
proof (intro conjI impI)
  assume "returns_on (comparator rt col Ascending) C \<and> consistent_on (cmp_of rt col Ascending) C"
  then show "\<exists>asc desc. sort_stage rt C col Ascending = Inr asc
           \<and> sort_stage rt asc col Descending = Inr desc
           \<and> sort_stage rt desc col Ascending = Inr asc"
    using sort_stage_round_trip by blast
next
  assume s: "\<forall>u\<in>set C. \<exists>s. getNestedValue rt (Json u) col = Inr (Json (JStr s))"
  show "returns_on (comparator rt col Ascending) C"
    using string_values_consistent [OF s] by simp
  show "consistent_on (cmp_of rt col Ascending) C"
    using string_values_consistent [OF s] by simp
next
  assume c: "sortColumn st = col"
  then show "sortColumn (handleSort col st) = col"
    by (simp add: handleSort_def)
  show "sortDirection (handleSort col st) \<noteq> sortDirection st"
    using c by (simp add: handleSort_def)
  show "handleSort col (handleSort col st) = st"
    using c by (rule handleSort_twice)
qed

text \<open>The three users with a city, and the initial state sorted by name.\<close>

theorem direction_round_trip_witness:
  "consistent_on (cmp_of example_builtins ''address.city'' Ascending) [ann, bob, cid]
   \<and> sort_stage example_builtins [ann, bob, cid] ''address.city'' Ascending = Inr [bob, ann, cid]
   \<and> sort_stage example_builtins [bob, ann, cid] ''address.city'' Descending = Inr [ann, cid, bob]
   \<and> sort_stage example_builtins [ann, cid, bob] ''address.city'' Ascending = Inr [bob, ann, cid]
   \<and> handleSort ''name'' (handleSort ''name'' initial_state) = initial_state"
proof -
  note t = direction_round_trip [of example_builtins "''address.city''" "[ann, bob, cid]"]
  have strings: "\<forall>u\<in>set [ann, bob, cid]. \<exists>s. getNestedValue example_builtins (Json u) ''address.city''
                    = Inr (Json (JStr s))"
    by (simp add: city_values)
  have cons: "returns_on (comparator example_builtins ''address.city'' Ascending) [ann, bob, cid]
              \<and> consistent_on (cmp_of example_builtins ''address.city'' Ascending) [ann, bob, cid]"
    using t strings by blast
  then obtain asc desc where
    "sort_stage example_builtins [ann, bob, cid] ''address.city'' Ascending = Inr asc"
    "sort_stage example_builtins asc ''address.city'' Descending = Inr desc"
    "sort_stage example_builtins desc ''address.city'' Ascending = Inr asc"
    using t by blast
  then have "sort_stage example_builtins [ann, bob, cid] ''address.city'' Ascending = Inr [bob, ann, cid]
   \<and> sort_stage example_builtins [bob, ann, cid] ''address.city'' Descending = Inr [ann, cid, bob]
   \<and> sort_stage example_builtins [ann, cid, bob] ''address.city'' Ascending = Inr [bob, ann, cid]"
    using sort_city_ascending sort_city_round_trip by simp
  moreover have "sortColumn initial_state = ''name''"
    by (simp add: initial_state_def)
  then have "handleSort ''name'' (handleSort ''name'' initial_state) = initial_state"
    using direction_round_trip [of example_builtins "''name''" "[]" initial_state] by blast
  ultimately show ?thesis using cons by simp
qed

subsection \<open>C9: the credential gate\<close>

lemma validateEmail_literal: "validateEmail ''test@gmail.com''"
  by code_simp

text \<open>
  C9. \<^verbatim>\<open>handleLogin\<close> writes the key \<^verbatim>\<open>user\<close> and replaces the screen exactly
  when the input is the pair \<^verbatim>\<open>test@gmail.com\<close>, \<^verbatim>\<open>pass123\<close>. Every other input
  shows one alert and leaves the store as it was: the validation alert for an empty field,
  the invalid-email alert for an address the pattern rejects, the login-failed alert for
  well-formed credentials that do not match.
\<close>

theorem handleLogin_gate:
  "(email = ''test@gmail.com'' \<and> pass = ''pass123'' \<longrightarrow>
      handleLogin email pass store
        = (store(''user'' \<mapsto> stringify_email ''test@gmail.com''), [NavigationReplace ''Home'']))
   \<and> (\<not> (email = ''test@gmail.com'' \<and> pass = ''pass123'') \<longrightarrow>
        (\<exists>title message. handleLogin email pass store = (store, [Alert title message])))
   \<and> (email = [] \<or> pass = [] \<longrightarrow>
        handleLogin email pass store
          = (store, [Alert ''Validation Error'' ''Please enter both email and password'']))
   \<and> (email \<noteq> [] \<and> pass \<noteq> [] \<and> \<not> validateEmail email \<longrightarrow>
        handleLogin email pass store
          = (store, [Alert ''Invalid Email'' ''Please enter a valid email address'']))
   \<and> (email \<noteq> [] \<and> pass \<noteq> [] \<and> validateEmail email
          \<and> \<not> (email = ''test@gmail.com'' \<and> pass = ''pass123'') \<longrightarrow>
        handleLogin email pass store
          = (store, [Alert ''Login Failed'' ''Invalid email or password'']))"
proof (intro conjI impI)
  assume "email = ''test@gmail.com'' \<and> pass = ''pass123''"
  then show "handleLogin email pass store
        = (store(''user'' \<mapsto> stringify_email ''test@gmail.com''), [NavigationReplace ''Home''])"
    using validateEmail_literal by (simp add: handleLogin_def)
next
  assume "\<not> (email = ''test@gmail.com'' \<and> pass = ''pass123'')"
  then show "\<exists>title message. handleLogin email pass store = (store, [Alert title message])"
    by (auto simp add: handleLogin_def)
next
  assume "email = [] \<or> pass = []"
  then show "handleLogin email pass store
          = (store, [Alert ''Validation Error'' ''Please enter both email and password''])"
    by (simp add: handleLogin_def)
next
  assume "email \<noteq> [] \<and> pass \<noteq> [] \<and> \<not> validateEmail email"
  then show "handleLogin email pass store
          = (store, [Alert ''Invalid Email'' ''Please enter a valid email address''])"
    by (simp add: handleLogin_def)
next
  assume "email \<noteq> [] \<and> pass \<noteq> [] \<and> validateEmail email
          \<and> \<not> (email = ''test@gmail.com'' \<and> pass = ''pass123'')"
  then show "handleLogin email pass store
          = (store, [Alert ''Login Failed'' ''Invalid email or password''])"
    by (simp add: handleLogin_def)
qed

text \<open>The scenario of the specification: the right address with a wrong and with the right password.\<close>

theorem handleLogin_gate_witness:
  "handleLogin ''test@gmail.com'' ''wrong'' Map.empty
     = (Map.empty, [Alert ''Login Failed'' ''Invalid email or password''])
   \<and> fst (handleLogin ''test@gmail.com'' ''pass123'' Map.empty) ''user''
     = Some (stringify_email ''test@gmail.com'')
   \<and> snd (handleLogin ''test@gmail.com'' ''pass123'' Map.empty) = [NavigationReplace ''Home'']"
proof -
  have v: "validateEmail ''test@gmail.com''" by code_simp
  have "handleLogin ''test@gmail.com'' ''wrong'' Map.empty
     = (Map.empty, [Alert ''Login Failed'' ''Invalid email or password''])"
    using handleLogin_gate [of "''test@gmail.com''" "''wrong''" Map.empty] v by simp
  moreover have "handleLogin ''test@gmail.com'' ''pass123'' Map.empty
        = (Map.empty(''user'' \<mapsto> stringify_email ''test@gmail.com''), [NavigationReplace ''Home''])"
    using handleLogin_gate [of "''test@gmail.com''" "''pass123''" Map.empty] by simp
  ultimately show ?thesis by simp
qed

subsection \<open>C10: when the lookup throws, and what it hands on\<close>

text \<open>
  The specification says that the lookup never throws and that indexing a primitive value
  on the way yields the missing result. On a path through inherited members it does
  throw: \<^verbatim>\<open>constructor.caller\<close> on any record reads \<^verbatim>\<open>caller\<close> of the function
  \<^verbatim>\<open>Object\<close>. And a primitive has properties: \<^verbatim>\<open>a.constructor\<close> on a record whose
  \<^verbatim>\<open>a\<close> is \<^verbatim>\<open>true\<close> is the function \<^verbatim>\<open>Boolean\<close>, and \<^verbatim>\<open>name.length\<close> on a
  record named "Bob" is 3.
\<close>

theorem getNestedValue_never_throws_counterexample:
  "getNestedValue example_builtins (Json (JObj [(''name'', JStr ''Bob'')])) ''constructor.caller''
     = Inl TypeError
   \<and> getNestedValue example_builtins (Json (JObj [(''a'', JBool True)])) ''a.constructor''
     = Inr (Function ''Boolean'')
   \<and> getNestedValue example_builtins (Json (JObj [(''name'', JStr ''Bob'')])) ''name.length''
     = Inr (Json (JNum (Fin 3)))"
  by code_simp

text \<open>
  C10, amended. On a path none of whose segments names an inherited member the lookup
  never throws; indexing a boolean, a number or a string by a key that names no inherited
  member yields \<^verbatim>\<open>undefined\<close>, but for \<^verbatim>\<open>length\<close> and the indices of a string. On
  every path, when the value reached at some point is falsy, the lookup returns that value
  itself: \<^verbatim>\<open>address.city\<close> on a record whose address is 0 is 0.
\<close>

theorem getNestedValue_never_throws:
  "(plain_path rt path \<longrightarrow> (\<exists>v. getNestedValue rt (Json obj) path = Inr v))
   \<and> (Inherited rt (Json (JBool b)) k = None \<longrightarrow> get_prop rt (Json (JBool b)) k = Inr Undefined)
   \<and> (Inherited rt (Json (JNum n)) k = None \<longrightarrow> get_prop rt (Json (JNum n)) k = Inr Undefined)
   \<and> (Inherited rt (Json (JStr s)) k = None \<and> k \<noteq> ''length'' \<and> index_of k (length s) = None \<longrightarrow>
        get_prop rt (Json (JStr s)) k = Inr Undefined)
   \<and> (\<forall>ps qs v. js_split (CHR ''.'') path = ps @ qs \<and> reduce (access rt) ps (Json obj) = Inr v
          \<and> \<not> truthy v \<longrightarrow> getNestedValue rt (Json obj) path = Inr v)
   \<and> getNestedValue rt (Json (JObj [(''address'', JNum (Fin 0))])) ''address.city''
       = Inr (Json (JNum (Fin 0)))"
proof (intro conjI allI impI)
  assume "plain_path rt path"
  then show "\<exists>v. getNestedValue rt (Json obj) path = Inr v"
    using getNestedValue_plain by blast
next
  assume "Inherited rt (Json (JBool b)) k = None"
  then show "get_prop rt (Json (JBool b)) k = Inr Undefined"
    by (simp add: get_prop_def)
next
  assume "Inherited rt (Json (JNum n)) k = None"
  then show "get_prop rt (Json (JNum n)) k = Inr Undefined"
    by (simp add: get_prop_def)
next
  assume "Inherited rt (Json (JStr s)) k = None \<and> k \<noteq> ''length'' \<and> index_of k (length s) = None"
  then show "get_prop rt (Json (JStr s)) k = Inr Undefined"
    by (simp add: get_prop_def)
next
  fix ps qs v
  assume "js_split (CHR ''.'') path = ps @ qs \<and> reduce (access rt) ps (Json obj) = Inr v
          \<and> \<not> truthy v"
  then show "getNestedValue rt (Json obj) path = Inr v"
    using intermediate_falsy [of path ps qs rt "Json obj" v] by simp
next
  show "getNestedValue rt (Json (JObj [(''address'', JNum (Fin 0))])) ''address.city''
       = Inr (Json (JNum (Fin 0)))"
    by (simp add: getNestedValue_def access_def get_prop_def)
qed

text \<open>
  A record whose address is the empty string, the key \<^verbatim>\<open>first\<close> of "Bob", and the city
  of a record of the data model.
\<close>

theorem getNestedValue_never_throws_witness:
  "getNestedValue example_builtins (Json (JObj [(''address'', JStr [])])) ''address.city''
     = Inr (Json (JStr []))
   \<and> get_prop example_builtins (Json (JStr ''Bob'')) ''first'' = Inr Undefined
   \<and> get_prop example_builtins (Json (JBool True)) ''city'' = Inr Undefined
   \<and> get_prop example_builtins (Json (JNum (Fin 7))) ''city'' = Inr Undefined
   \<and> (\<exists>v. getNestedValue example_builtins (Json cid) ''address.city'' = Inr v)"
proof -
  let ?rt = example_builtins
  let ?o = "JObj [(''address'', JStr [])]"
  have s: "js_split (CHR ''.'') ''address.city'' = [''address''] @ [''city'']"
    by simp
  have r: "reduce (access ?rt) [''address''] (Json ?o) = Inr (Json (JStr []))"
    by code_simp
  have f: "\<not> truthy (Json (JStr []))" by simp
  have i: "Inherited ?rt (Json (JStr ''Bob'')) ''first'' = None \<and> ''first'' \<noteq> ''length''
           \<and> index_of ''first'' (length ''Bob'') = None"
    by code_simp
  have b: "Inherited ?rt (Json (JBool True)) ''city'' = None"
    and n: "Inherited ?rt (Json (JNum (Fin 7))) ''city'' = None"
    by (simp_all add: example_builtins_def)
  note t = getNestedValue_never_throws [of ?rt "''address.city''" _ True "''city''" "Fin 7"]
  have "getNestedValue ?rt (Json ?o) ''address.city'' = Inr (Json (JStr []))"
    using t [of ?o] s r f by blast
  moreover have "get_prop ?rt (Json (JStr ''Bob'')) ''first'' = Inr Undefined"
    using getNestedValue_never_throws [of ?rt "''address.city''" ?o True "''first''" "Fin 7" "''Bob''"] i
    by blast
  moreover have "get_prop ?rt (Json (JBool True)) ''city'' = Inr Undefined"
    and "get_prop ?rt (Json (JNum (Fin 7))) ''city'' = Inr Undefined"
    using t [of ?o] b n by blast+
  moreover have "\<exists>v. getNestedValue ?rt (Json cid) ''address.city'' = Inr v"
    using t [of cid] plain_example_paths(3) by blast
  ultimately show ?thesis by simp
qed

end
